theory Spec2Isabelle
  imports Main "HOL-Library.Word" "HOL-Library.Signed_Division"
begin

unbundle bit_operations_syntax

section \<open>Receiver channel pipeline (src/main/rx/rx.c)\<close>

subsection \<open>Data model\<close>

text \<open>
  The feature bits of \<^verbatim>\<open>masterConfig.enabledFeatures\<close>. The header that gives each
  \<^verbatim>\<open>FEATURE_*\<close> constant its bit is not part of the sources at hand, so the bit mask is
  modelled as a set of flags: \<^verbatim>\<open>a | b\<close> is the union of two masks and
  \<^verbatim>\<open>feature(mask)\<close> (config.c: \<^verbatim>\<open>return masterConfig.enabledFeatures & mask;\<close>)
  is true when the intersection is not empty.
\<close>

datatype feature_e =
    FEATURE_RX_PPM
  | FEATURE_RX_SERIAL
  | FEATURE_RX_PARALLEL_PWM
  | FEATURE_RX_MSP
  | FEATURE_FAILSAFE
  | FEATURE_RSSI_ADC

text \<open>The calls made through \<^verbatim>\<open>failsafe->vTable\<close>, recorded in the order they happen.\<close>

datatype failsafe_call =
    FailsafeReset
  | FailsafeIncrementCounter
  | FailsafeCheckPulse "8 word" "16 word"

record rxConfig_t =
  rcmap :: "8 word list"
  midrc :: "16 word"
  rssi_channel :: "8 word"

text \<open>
  The module-level and function-static variables of rx.c. \<^verbatim>\<open>int16_t\<close> and
  \<^verbatim>\<open>uint16_t\<close> cells are both \<open>16 word\<close>; \<open>sint\<close> and \<open>unat\<close> read them. An array is
  a list, read with \<open>!\<close> and written with list update; the properties below assume the
  indices used are within the arrays, as the dimensions of the C declarations provide.
  \<^verbatim>\<open>REMAPPABLE_CHANNEL_COUNT\<close> is a constant of rx.h, which is not among the sources; the
  state carries it and nothing writes it.
\<close>

record rx_state =
  REMAPPABLE_CHANNEL_COUNT :: "8 word"
  enabledFeatures :: "feature_e set"
  rxConfig :: rxConfig_t
  channelCount :: "8 word"
  rcData :: "16 word list"
  rssi :: "16 word"
  rcDataReceived :: bool
  rxUpdateAt :: "32 word"
  rcSampleIndex :: "8 word"
  rcSamples :: "16 word list list"
  rcDataMean :: "16 word list"
  rxSamplesCollected :: bool
  adcRssiSamples :: "8 word list"
  adcRssiSampleIndex :: "8 word"
  rssiUpdateAt :: "32 word"
  failsafeCalls :: "failsafe_call list"

definition feature :: "rx_state \<Rightarrow> feature_e set \<Rightarrow> bool" where
  "feature st featureMask = (enabledFeatures st \<inter> featureMask \<noteq> {})"

definition PPM_AND_PWM_SAMPLE_COUNT :: nat where
  "PPM_AND_PWM_SAMPLE_COUNT = 4"

definition PULSE_MIN :: "16 word" where
  "PULSE_MIN = 750"

definition PULSE_MAX :: "16 word" where
  "PULSE_MAX = 2250"

definition DELAY_50_HZ :: "32 word" where
  "DELAY_50_HZ = 1000000 div 50"

subsection \<open>Channel remapping\<close>

definition calculateChannelRemapping :: "8 word list \<Rightarrow> 8 word \<Rightarrow> 8 word \<Rightarrow> 8 word" where
  "calculateChannelRemapping channelMap channelMapEntryCount channelToRemap =
     (if channelToRemap < channelMapEntryCount then channelMap ! unat channelToRemap
      else channelToRemap)"

subsection \<open>The scheduling gate\<close>

text \<open>\<^verbatim>\<open>return rcDataReceived || ((int32_t)(currentTime - rxUpdateAt) >= 0);\<close>\<close>

definition shouldProcessRx :: "rx_state \<Rightarrow> 32 word \<Rightarrow> bool" where
  "shouldProcessRx st currentTime =
     (rcDataReceived st \<or> 0 \<le> sint (currentTime - rxUpdateAt st))"

subsection \<open>The per-tick channel update\<close>

text \<open>\<^verbatim>\<open>return !(feature(FEATURE_RX_PARALLEL_PWM | FEATURE_RX_PPM));\<close>\<close>

definition isRxDataDriven :: "rx_state \<Rightarrow> bool" where
  "isRxDataDriven st = (\<not> feature st {FEATURE_RX_PARALLEL_PWM, FEATURE_RX_PPM})"

text \<open>
  \<^verbatim>\<open>updateRx\<close>, with the \<^verbatim>\<open>SERIAL_RX\<close> block compiled in. The frame-complete predicates
  belong to the serial and MSP drivers; what they return at this call are the two
  arguments.
\<close>

definition updateRx :: "bool \<Rightarrow> bool \<Rightarrow> rx_state \<Rightarrow> rx_state" where
  "updateRx serialRxFrameComplete rxMspFrameComplete st =
     (let st1 = st\<lparr>rcDataReceived := False\<rparr>;
          st2 = (if feature st1 {FEATURE_RX_SERIAL}
                 then st1\<lparr>rcDataReceived := serialRxFrameComplete\<rparr> else st1);
          st3 = (if feature st2 {FEATURE_RX_MSP}
                 then st2\<lparr>rcDataReceived := rxMspFrameComplete\<rparr> else st2)
      in if rcDataReceived st3
         then (if feature st3 {FEATURE_FAILSAFE}
               then st3\<lparr>failsafeCalls := failsafeCalls st3 @ [FailsafeReset]\<rparr>
               else st3)
         else st3)"

text \<open>
  The end of \<^verbatim>\<open>calculateNonDataDrivenChannel\<close>: \<^verbatim>\<open>rcDataMean[chan] = 0\<close>, the loop
  \<^verbatim>\<open>rcDataMean[chan] += rcSamples[chan][sampleIndex]\<close> over the four slots, in 16-bit
  arithmetic, and the signed division \<^verbatim>\<open>rcDataMean[chan] / PPM_AND_PWM_SAMPLE_COUNT\<close>, which
  truncates toward zero and is returned as \<^verbatim>\<open>uint16_t\<close>.
\<close>

definition sumSamples :: "8 word \<Rightarrow> rx_state \<Rightarrow> rx_state" where
  "sumSamples chan st =
     foldl (\<lambda>s sampleIndex.
              s\<lparr>rcDataMean := (rcDataMean s)
                   [unat chan := rcDataMean s ! unat chan + rcSamples s ! unat chan ! sampleIndex]\<rparr>)
       st [0..<PPM_AND_PWM_SAMPLE_COUNT]"

definition averageSamples :: "8 word \<Rightarrow> rx_state \<Rightarrow> 16 word \<times> rx_state" where
  "averageSamples chan st =
     (let st1 = st\<lparr>rcDataMean := (rcDataMean st)[unat chan := 0]\<rparr>;
          st2 = sumSamples chan st1
      in (word_of_int (sint (rcDataMean st2 ! unat chan) sdiv int PPM_AND_PWM_SAMPLE_COUNT), st2))"

text \<open>
  \<^verbatim>\<open>calculateNonDataDrivenChannel\<close>: the sample goes to slot
  \<^verbatim>\<open>rcSampleIndex % PPM_AND_PWM_SAMPLE_COUNT\<close> of the channel's window; until four samples
  were collected the sample itself is returned.
\<close>

definition calculateNonDataDrivenChannel :: "8 word \<Rightarrow> 16 word \<Rightarrow> rx_state \<Rightarrow> 16 word \<times> rx_state" where
  "calculateNonDataDrivenChannel chan sample st =
     (let currentSampleIndex = unat (rcSampleIndex st) mod PPM_AND_PWM_SAMPLE_COUNT;
          st1 = st\<lparr>rcSamples := (rcSamples st)
                  [unat chan := (rcSamples st ! unat chan)[currentSampleIndex := sample]]\<rparr>
      in if \<not> rxSamplesCollected st1
         then (if unat (rcSampleIndex st1) < PPM_AND_PWM_SAMPLE_COUNT then (sample, st1)
               else averageSamples chan (st1\<lparr>rxSamplesCollected := True\<rparr>))
         else averageSamples chan st1)"

text \<open>
  The body of the loop of \<^verbatim>\<open>processRxChannels\<close> for one channel. \<open>rcReadRawFunc\<close> is
  the driver's read function as it answers during this tick (\<open>None\<close> for the null
  pointer); \<^verbatim>\<open>rxConfig->rcmap\<close> is remapped with \<^verbatim>\<open>REMAPPABLE_CHANNEL_COUNT\<close> entries.
\<close>

definition processRxChannel ::
    "(8 word \<Rightarrow> 16 word) option \<Rightarrow> bool \<Rightarrow> rx_state \<Rightarrow> 8 word \<Rightarrow> rx_state" where
  "processRxChannel rcReadRawFunc shouldCheckPulse st chan =
     (case rcReadRawFunc of
        None \<Rightarrow> st\<lparr>rcData := (rcData st)[unat chan := midrc (rxConfig st)]\<rparr>
      | Some readRaw \<Rightarrow>
          (let rawChannel = calculateChannelRemapping (rcmap (rxConfig st))
                              (REMAPPABLE_CHANNEL_COUNT st) chan;
               sample = readRaw rawChannel;
               st1 = (if feature st {FEATURE_FAILSAFE} \<and> shouldCheckPulse
                      then st\<lparr>failsafeCalls :=
                                failsafeCalls st @ [FailsafeCheckPulse rawChannel sample]\<rparr>
                      else st);
               sample' = (if sample < PULSE_MIN \<or> PULSE_MAX < sample then midrc (rxConfig st1)
                          else sample)
           in if isRxDataDriven st1 then st1\<lparr>rcData := (rcData st1)[unat chan := sample']\<rparr>
              else (case calculateNonDataDrivenChannel chan sample' st1 of
                      (v, st2) \<Rightarrow> st2\<lparr>rcData := (rcData st2)[unat chan := v]\<rparr>)))"

text \<open>
  \<^verbatim>\<open>processRxChannels\<close>. \<^verbatim>\<open>isPPMDataBeingReceived()\<close> belongs to the PWM driver; what it
  returns is the argument \<open>ppmDataBeingReceived\<close>.
\<close>

definition processRxChannels :: "(8 word \<Rightarrow> 16 word) option \<Rightarrow> bool \<Rightarrow> rx_state \<Rightarrow> rx_state" where
  "processRxChannels rcReadRawFunc ppmDataBeingReceived st =
     (let shouldCheckPulse = (if feature st {FEATURE_FAILSAFE, FEATURE_RX_PPM}
                              then ppmDataBeingReceived else True)
      in foldl (processRxChannel rcReadRawFunc shouldCheckPulse) st
           (map of_nat [0..<unat (channelCount st)]))"

definition processDataDrivenRx :: "(8 word \<Rightarrow> 16 word) option \<Rightarrow> bool \<Rightarrow> rx_state \<Rightarrow> rx_state" where
  "processDataDrivenRx rcReadRawFunc ppmDataBeingReceived st =
     (if \<not> rcDataReceived st then st
      else (let st1 = st\<lparr>failsafeCalls := failsafeCalls st @ [FailsafeReset]\<rparr>;
                st2 = processRxChannels rcReadRawFunc ppmDataBeingReceived st1
            in st2\<lparr>rcDataReceived := False\<rparr>))"

definition processNonDataDrivenRx :: "(8 word \<Rightarrow> 16 word) option \<Rightarrow> bool \<Rightarrow> rx_state \<Rightarrow> rx_state" where
  "processNonDataDrivenRx rcReadRawFunc ppmDataBeingReceived st =
     processRxChannels rcReadRawFunc ppmDataBeingReceived
       (st\<lparr>rcSampleIndex := rcSampleIndex st + 1\<rparr>)"

definition calculateRxChannelsAndUpdateFailsafe ::
    "(8 word \<Rightarrow> 16 word) option \<Rightarrow> bool \<Rightarrow> 32 word \<Rightarrow> rx_state \<Rightarrow> rx_state" where
  "calculateRxChannelsAndUpdateFailsafe rcReadRawFunc ppmDataBeingReceived currentTime st =
     (let st1 = st\<lparr>rxUpdateAt := currentTime + DELAY_50_HZ\<rparr>;
          st2 = (if feature st1 {FEATURE_FAILSAFE}
                 then st1\<lparr>failsafeCalls := failsafeCalls st1 @ [FailsafeIncrementCounter]\<rparr>
                 else st1)
      in if isRxDataDriven st2 then processDataDrivenRx rcReadRawFunc ppmDataBeingReceived st2
         else processNonDataDrivenRx rcReadRawFunc ppmDataBeingReceived st2)"

subsection \<open>Notions used to state the properties\<close>

text \<open>
  The range validation of \<^verbatim>\<open>processRxChannels\<close>, the raw sample the driver returns for a
  logical channel, the mean of a four-slot window as the code computes it, and the
  dimensions of the arrays.
\<close>

definition validSample :: "rx_state \<Rightarrow> 16 word \<Rightarrow> 16 word" where
  "validSample st sample =
     (if sample < PULSE_MIN \<or> PULSE_MAX < sample then midrc (rxConfig st) else sample)"

definition rawSample :: "rx_state \<Rightarrow> (8 word \<Rightarrow> 16 word) \<Rightarrow> nat \<Rightarrow> 16 word" where
  "rawSample st readRaw c =
     readRaw (calculateChannelRemapping (rcmap (rxConfig st)) (REMAPPABLE_CHANNEL_COUNT st) (of_nat c))"

definition windowMean :: "16 word list \<Rightarrow> 16 word" where
  "windowMean w = word_of_int (sint (0 + w ! 0 + w ! 1 + w ! 2 + w ! 3) sdiv 4)"

definition rx_arrays_ok :: "rx_state \<Rightarrow> bool" where
  "rx_arrays_ok st =
     (unat (channelCount st) \<le> length (rcData st)
      \<and> unat (channelCount st) \<le> length (rcSamples st)
      \<and> unat (channelCount st) \<le> length (rcDataMean st)
      \<and> list_all (\<lambda>w. length w = PPM_AND_PWM_SAMPLE_COUNT) (rcSamples st))"

text \<open>
  Whether a tick averages (four samples were collected, now or earlier), the slot it
  writes, and the sample, window and published value of a channel in POLL mode.
\<close>

definition samplesCollected :: "rx_state \<Rightarrow> bool" where
  "samplesCollected st = (rxSamplesCollected st \<or> PPM_AND_PWM_SAMPLE_COUNT \<le> unat (rcSampleIndex st))"

definition sampleSlot :: "rx_state \<Rightarrow> nat" where
  "sampleSlot st = unat (rcSampleIndex st) mod PPM_AND_PWM_SAMPLE_COUNT"

definition pollSample :: "rx_state \<Rightarrow> (8 word \<Rightarrow> 16 word) \<Rightarrow> nat \<Rightarrow> 16 word" where
  "pollSample st readRaw c = validSample st (rawSample st readRaw c)"

definition pollWindow :: "rx_state \<Rightarrow> (8 word \<Rightarrow> 16 word) \<Rightarrow> nat \<Rightarrow> 16 word list" where
  "pollWindow st readRaw c = (rcSamples st ! c)[sampleSlot st := pollSample st readRaw c]"

definition pollPublished :: "rx_state \<Rightarrow> (8 word \<Rightarrow> 16 word) \<Rightarrow> nat \<Rightarrow> 16 word" where
  "pollPublished st readRaw c =
     (if samplesCollected st then windowMean (pollWindow st readRaw c)
      else pollSample st readRaw c)"

text \<open>Two states with the same configuration, tick counter and array sizes.\<close>

definition same_env :: "rx_state \<Rightarrow> rx_state \<Rightarrow> bool" where
  "same_env s st =
     (REMAPPABLE_CHANNEL_COUNT s = REMAPPABLE_CHANNEL_COUNT st
      \<and> enabledFeatures s = enabledFeatures st \<and> rxConfig s = rxConfig st
      \<and> channelCount s = channelCount st \<and> rcSampleIndex s = rcSampleIndex st
      \<and> rcDataReceived s = rcDataReceived st
      \<and> length (rcData s) = length (rcData st) \<and> length (rcSamples s) = length (rcSamples st)
      \<and> length (rcDataMean s) = length (rcDataMean st))"

text \<open>Example states: a two-channel parallel PWM receiver and a four-channel serial one.\<close>

definition example_poll_state :: rx_state where
  "example_poll_state =
     \<lparr>REMAPPABLE_CHANNEL_COUNT = 8, enabledFeatures = {FEATURE_RX_PARALLEL_PWM},
      rxConfig = \<lparr>rcmap = [0, 1, 2, 3, 4, 5, 6, 7], midrc = 1500, rssi_channel = 0\<rparr>,
      channelCount = 2, rcData = [1500, 1500], rssi = 0, rcDataReceived = False,
      rxUpdateAt = 0, rcSampleIndex = 0, rcSamples = [[0, 0, 0, 0], [0, 0, 0, 0]],
      rcDataMean = [0, 0], rxSamplesCollected = False, adcRssiSamples = replicate 16 0,
      adcRssiSampleIndex = 0, rssiUpdateAt = 0, failsafeCalls = []\<rparr>"

definition example_push_state :: rx_state where
  "example_push_state =
     \<lparr>REMAPPABLE_CHANNEL_COUNT = 8, enabledFeatures = {FEATURE_RX_SERIAL},
      rxConfig = \<lparr>rcmap = [0, 1, 3, 2, 4, 5, 6, 7], midrc = 1500, rssi_channel = 0\<rparr>,
      channelCount = 4, rcData = [1500, 1500, 1500, 1500], rssi = 0, rcDataReceived = False,
      rxUpdateAt = 0, rcSampleIndex = 0, rcSamples = [], rcDataMean = [],
      rxSamplesCollected = False, adcRssiSamples = replicate 16 0,
      adcRssiSampleIndex = 0, rssiUpdateAt = 0, failsafeCalls = []\<rparr>"

subsection \<open>Single-precision arithmetic\<close>

text \<open>
  The RSSI code computes in \<^verbatim>\<open>float\<close>. The targets evaluate \<^verbatim>\<open>float\<close> expressions in
  IEEE 754 binary32 with rounding to nearest, ties to even; the model follows that. Only
  values that are zero or positive and far from the ends of the exponent range occur
  (a clamped integer, an ADC reading, their quotients by 100, 1000 or 40.95 and products
  with 1023), so a value is a mantissa and an exponent, \<open>mant * 2 ^ expo\<close>, with no sign,
  infinity or subnormal. \<open>bitlen n\<close> is the number of binary digits of \<open>n\<close>.
\<close>

fun bitlen :: "nat \<Rightarrow> nat" where
  "bitlen n = (if n = 0 then 0 else Suc (bitlen (n div 2)))"

declare bitlen.simps [simp del]

record float32 =
  mant :: nat
  expo :: int

text \<open>The integer nearest to \<open>n / d\<close>, the even one of two equally near.\<close>

definition round_nearest_even :: "nat \<Rightarrow> nat \<Rightarrow> nat" where
  "round_nearest_even n d =
     (let q = n div d; r = n mod d
      in if 2 * r < d then q else if d < 2 * r then q + 1 else if even q then q else q + 1)"

text \<open>
  \<open>a / b\<close> rounded to 24 significant bits: with \<open>a / b\<close> between \<open>2 ^ (k - 1)\<close> and
  \<open>2 ^ (k + 1)\<close> for \<open>k = bitlen a - bitlen b\<close>, the quotient scaled by \<open>2 ^ (24 - k)\<close>
  lies between \<open>2 ^ 23\<close> and \<open>2 ^ 25\<close>; it is rounded to an integer directly when it is
  below \<open>2 ^ 24\<close> and after halving otherwise. The divisors in the code are non-zero
  constants.
\<close>

definition round_ratio :: "nat \<Rightarrow> nat \<Rightarrow> float32" where
  "round_ratio a b =
     (if a = 0 then \<lparr>mant = 0, expo = 0\<rparr>
      else (let s = 24 - (int (bitlen a) - int (bitlen b));
                n = (if 0 \<le> s then a * 2 ^ nat s else a);
                d = (if 0 \<le> s then b else b * 2 ^ nat (- s))
            in if n < d * 2 ^ 24 then \<lparr>mant = round_nearest_even n d, expo = - s\<rparr>
               else \<lparr>mant = round_nearest_even n (2 * d), expo = 1 - s\<rparr>))"

text \<open>
  Conversion of an integer (exact below \<open>2 ^ 24\<close>), division, multiplication, and the
  conversion to an unsigned integer type, which drops the fraction.
\<close>

definition float32_of_nat :: "nat \<Rightarrow> float32" where
  "float32_of_nat n = (if n < 2 ^ 24 then \<lparr>mant = n, expo = 0\<rparr> else round_ratio n 1)"

definition float32_div :: "float32 \<Rightarrow> float32 \<Rightarrow> float32" where
  "float32_div x y =
     (let r = round_ratio (mant x) (mant y) in r\<lparr>expo := expo r + expo x - expo y\<rparr>)"

definition float32_mul :: "float32 \<Rightarrow> float32 \<Rightarrow> float32" where
  "float32_mul x y =
     (let r = float32_of_nat (mant x * mant y) in r\<lparr>expo := expo r + expo x + expo y\<rparr>)"

definition float32_trunc :: "float32 \<Rightarrow> nat" where
  "float32_trunc x =
     (if 0 \<le> expo x then mant x * 2 ^ nat (expo x) else mant x div 2 ^ nat (- expo x))"

subsection \<open>RSSI\<close>

text \<open>
  Modelled from the spec: \<^verbatim>\<open>constrain\<close> is declared in common/maths.h, which is not among
  the sources. The spec describes its use as clamping the channel value to the range
  given: the result is \<open>low\<close> below the range, \<open>high\<close> above it, and the value itself
  inside.
\<close>

definition constrain :: "int \<Rightarrow> int \<Rightarrow> int \<Rightarrow> int" where
  "constrain amt low high = (if amt < low then low else if high < amt then high else amt)"

text \<open>
  \<^verbatim>\<open>(uint16_t)((c / full.0f) * 1023.0f)\<close> for an integer \<open>c\<close> that is not negative: the
  expression \<^verbatim>\<open>updateRSSIPWM\<close> uses with \<open>full = 1000\<close> and \<^verbatim>\<open>updateRSSIADC\<close> with
  \<open>full = 100\<close>.
\<close>

definition rescale :: "nat \<Rightarrow> nat \<Rightarrow> nat" where
  "rescale c full =
     float32_trunc (float32_mul (float32_div (float32_of_nat c) (float32_of_nat full))
                      (float32_of_nat 1023))"

text \<open>
  \<^verbatim>\<open>updateRSSIPWM\<close>. \<^verbatim>\<open>pwmRssi - 1000\<close> is computed in \<^verbatim>\<open>int\<close>; the clamped value is never
  negative. \<^verbatim>\<open>updateRSSI\<close> calls it only with \<^verbatim>\<open>rssi_channel > 0\<close>.
\<close>

definition updateRSSIPWM :: "rx_state \<Rightarrow> rx_state" where
  "updateRSSIPWM st =
     (let pwmRssi = rcData st ! (unat (rssi_channel (rxConfig st)) - 1)
      in st\<lparr>rssi := of_nat (rescale (nat (constrain (sint pwmRssi - 1000) 0 1000)) 1000)\<rparr>)"

definition RSSI_ADC_SAMPLE_COUNT :: nat where
  "RSSI_ADC_SAMPLE_COUNT = 16"

text \<open>\<^verbatim>\<open>#define RSSI_SCALE (0xFFF / 100.0f)\<close>\<close>

definition RSSI_SCALE :: float32 where
  "RSSI_SCALE = float32_div (float32_of_nat 0xFFF) (float32_of_nat 100)"

text \<open>\<^verbatim>\<open>uint8_t rssiPercentage = adcRssiSample / RSSI_SCALE;\<close>\<close>

definition rssiPercentage :: "16 word \<Rightarrow> 8 word" where
  "rssiPercentage adcRssiSample =
     of_nat (float32_trunc (float32_div (float32_of_nat (unat adcRssiSample)) RSSI_SCALE))"

text \<open>
  The sum of the 16 slots in the \<^verbatim>\<open>int16_t adcRssiMean\<close> and its division by
  \<^verbatim>\<open>RSSI_ADC_SAMPLE_COUNT\<close>.
\<close>

definition adcRssiMean :: "8 word list \<Rightarrow> 16 word" where
  "adcRssiMean samples =
     word_of_int (sint (foldl (\<lambda>m sampleIndex. m + ucast (samples ! sampleIndex)) (0 :: 16 word)
                          [0..<RSSI_ADC_SAMPLE_COUNT])
                  sdiv int RSSI_ADC_SAMPLE_COUNT)"

text \<open>
  \<^verbatim>\<open>updateRSSIADC\<close>. \<^verbatim>\<open>adcGetChannel(ADC_RSSI)\<close> belongs to the ADC driver; what it returns
  is the argument \<open>adcRssiSample\<close>. The three function-static variables are fields of the
  state.
\<close>

definition updateRSSIADC :: "16 word \<Rightarrow> 32 word \<Rightarrow> rx_state \<Rightarrow> rx_state" where
  "updateRSSIADC adcRssiSample currentTime st =
     (if sint (currentTime - rssiUpdateAt st) < 0 then st
      else (let st1 = st\<lparr>rssiUpdateAt := currentTime + DELAY_50_HZ\<rparr>;
                st2 = st1\<lparr>adcRssiSampleIndex :=
                             of_nat ((unat (adcRssiSampleIndex st1) + 1) mod RSSI_ADC_SAMPLE_COUNT)\<rparr>;
                st3 = st2\<lparr>adcRssiSamples := (adcRssiSamples st2)
                             [unat (adcRssiSampleIndex st2) := rssiPercentage adcRssiSample]\<rparr>
            in st3\<lparr>rssi := of_nat (rescale
                       (nat (constrain (sint (adcRssiMean (adcRssiSamples st3))) 0 100)) 100)\<rparr>))"

definition updateRSSI :: "16 word \<Rightarrow> 32 word \<Rightarrow> rx_state \<Rightarrow> rx_state" where
  "updateRSSI adcRssiSample currentTime st =
     (if 0 < rssi_channel (rxConfig st) then updateRSSIPWM st
      else if feature st {FEATURE_RSSI_ADC} then updateRSSIADC adcRssiSample currentTime st
      else st)"

text \<open>
  A sequence of calls of \<^verbatim>\<open>updateRSSIADC\<close>, each with the ADC reading and the time of the
  call, and whether every call of a sequence passes the time gate.
\<close>

fun updateRSSIADC_run :: "(16 word \<times> 32 word) list \<Rightarrow> rx_state \<Rightarrow> rx_state" where
  "updateRSSIADC_run [] st = st"
| "updateRSSIADC_run ((adcRssiSample, currentTime) # us) st =
     updateRSSIADC_run us (updateRSSIADC adcRssiSample currentTime st)"

fun all_accepted :: "(16 word \<times> 32 word) list \<Rightarrow> rx_state \<Rightarrow> bool" where
  "all_accepted [] st = True"
| "all_accepted ((adcRssiSample, currentTime) # us) st =
     (0 \<le> sint (currentTime - rssiUpdateAt st)
      \<and> all_accepted us (updateRSSIADC adcRssiSample currentTime st))"

text \<open>
  The single-precision result of rescaling \<open>c\<close> out of 1000 agrees with the exact
  \<open>c * 1023 / 1000\<close> rounded down; \<open>rescale_ok_range lo n\<close> says so for the \<open>n\<close> values
  from \<open>lo\<close> on, in a form that evaluates value by value.
\<close>

definition rescale_ok :: "nat \<Rightarrow> bool" where
  "rescale_ok c = (rescale c 1000 = c * 1023 div 1000)"

fun rescale_ok_range :: "nat \<Rightarrow> nat \<Rightarrow> bool" where
  "rescale_ok_range lo n =
     (if n = 0 then True else rescale_ok (lo + (n - 1)) \<and> rescale_ok_range lo (n - 1))"

declare rescale_ok_range.simps [simp del]

text \<open>Examples: a state with RSSI on channel 4, and sixteen ADC updates 20 ms apart.\<close>

definition example_rssi_state :: rx_state where
  "example_rssi_state =
     example_push_state\<lparr>rxConfig := (rxConfig example_push_state)\<lparr>rssi_channel := 4\<rparr>,
                        rcData := [1500, 1500, 1000, 1500]\<rparr>"

text \<open>The RSSI that \<^verbatim>\<open>updateRSSIADC\<close> computes from the sample window.\<close>

definition adcRssi :: "8 word list \<Rightarrow> 16 word" where
  "adcRssi samples = of_nat (rescale (nat (constrain (sint (adcRssiMean samples)) 0 100)) 100)"

definition example_adc_updates :: "(16 word \<times> 32 word) list" where
  "example_adc_updates =
     [(2048, 0), (2060, 20000), (2048, 40000), (2060, 60000), (2048, 80000), (2060, 100000),
      (2048, 120000), (2060, 140000), (2048, 160000), (2060, 180000), (2048, 200000),
      (2060, 220000), (2048, 240000), (2060, 260000), (2048, 280000), (2060, 300000)]"

section \<open>Timer capture dispatcher (src/main/drivers/timer.c)\<close>

text \<open>
  The tables of the build: \<^verbatim>\<open>MAX_TIMERS\<close>, \<^verbatim>\<open>timers[]\<close> and \<^verbatim>\<open>channels[]\<close>. timer.c defines
  them per target (\<^verbatim>\<open>MAX_TIMERS\<close> is 4, 7 or 8) from peripheral addresses and
  \<^verbatim>\<open>TIM_Channel_x\<close> constants of the vendor headers, so they are parameters here. The
  two lookup loops of timer.c index their table with no bound, so a table is given as
  the function from an index to the word read there: the entries of the array, followed
  by whatever the memory after the array holds.
\<close>

record timer_tables =
  MAX_TIMERS :: nat
  timers :: "nat \<Rightarrow> 32 word"
  channels :: "nat \<Rightarrow> 16 word"

definition CC_CHANNELS_PER_TIMER :: nat where
  "CC_CHANNELS_PER_TIMER = 4"

text \<open>\<^verbatim>\<open>channels[] = { TIM_Channel_1, TIM_Channel_2, TIM_Channel_3, TIM_Channel_4 }\<close>\<close>

definition TIM_Channel_1 :: "timer_tables \<Rightarrow> 16 word" where
  "TIM_Channel_1 p = channels p 0"

definition TIM_Channel_2 :: "timer_tables \<Rightarrow> 16 word" where
  "TIM_Channel_2 p = channels p 1"

definition TIM_Channel_3 :: "timer_tables \<Rightarrow> 16 word" where
  "TIM_Channel_3 p = channels p 2"

definition TIM_Channel_4 :: "timer_tables \<Rightarrow> 16 word" where
  "TIM_Channel_4 p = channels p 3"

text \<open>
  A callback is a function pointer: its address, with \<open>None\<close> for \<^verbatim>\<open>NULL\<close>
  (\<^verbatim>\<open>timerInit\<close> clears the table with \<^verbatim>\<open>memset\<close>).
\<close>

record timerConfig_t =
  tim :: "32 word"
  channel :: "8 word"
  edgeCallback :: "nat option"
  overflowCallback :: "nat option"
  reference :: "8 word"

text \<open>
  \<^verbatim>\<open>while (timers[timerIndex] != tim) timerIndex++;\<close> with a \<^verbatim>\<open>uint8_t\<close> index: the
  loop has no bound, the index wraps at 256, and the loop does not return when no word
  it reads equals \<^verbatim>\<open>tim\<close>: the value \<open>None\<close>.
\<close>

partial_function (option) lookupTimerIndex_loop ::
    "(nat \<Rightarrow> 32 word) \<Rightarrow> 32 word \<Rightarrow> 8 word \<Rightarrow> 8 word option" where
  "lookupTimerIndex_loop tbl timx timerIndex =
     (if tbl (unat timerIndex) \<noteq> timx then lookupTimerIndex_loop tbl timx (timerIndex + 1)
      else Some timerIndex)"

definition lookupTimerIndex :: "timer_tables \<Rightarrow> 32 word \<Rightarrow> 8 word option" where
  "lookupTimerIndex p timx = lookupTimerIndex_loop (timers p) timx 0"

partial_function (option) lookupChannelIndex_loop ::
    "(nat \<Rightarrow> 16 word) \<Rightarrow> 16 word \<Rightarrow> 8 word \<Rightarrow> 8 word option" where
  "lookupChannelIndex_loop tbl chan channelIndex =
     (if tbl (unat channelIndex) \<noteq> chan then lookupChannelIndex_loop tbl chan (channelIndex + 1)
      else Some channelIndex)"

definition lookupChannelIndex :: "timer_tables \<Rightarrow> 16 word \<Rightarrow> 8 word option" where
  "lookupChannelIndex p chan = lookupChannelIndex_loop (channels p) chan 0"

text \<open>
  \<^verbatim>\<open>return lookupTimerIndex(tim) + (MAX_TIMERS * lookupChannelIndex(channel));\<close> The sum
  is computed in \<^verbatim>\<open>int\<close> and returned as \<^verbatim>\<open>uint8_t\<close>.
\<close>

definition lookupTimerConfigIndex :: "timer_tables \<Rightarrow> 32 word \<Rightarrow> 16 word \<Rightarrow> 8 word option" where
  "lookupTimerConfigIndex p timx chan =
     (case lookupTimerIndex p timx of
        None \<Rightarrow> None
      | Some timerIndex \<Rightarrow>
          (case lookupChannelIndex p chan of
             None \<Rightarrow> None
           | Some channelIndex \<Rightarrow>
               Some (of_nat (unat timerIndex + MAX_TIMERS p * unat channelIndex))))"

text \<open>
  \<^verbatim>\<open>configureTimerChannelCallbacks\<close>. \<^verbatim>\<open>assert_param\<close> is the vendor library's macro,
  which expands to nothing unless the library is built with full assertions; it is left
  out. The \<^verbatim>\<open>uint8_t channel\<close> is widened to the \<^verbatim>\<open>uint16_t\<close> parameter of the lookup.
\<close>

definition configureTimerChannelCallbacks ::
    "timer_tables \<Rightarrow> 32 word \<Rightarrow> 8 word \<Rightarrow> 8 word \<Rightarrow> nat option \<Rightarrow> nat option
       \<Rightarrow> timerConfig_t list \<Rightarrow> timerConfig_t list option" where
  "configureTimerChannelCallbacks p timx chan refr edgeCb overflowCb timerConfig =
     (case lookupTimerConfigIndex p timx (ucast chan) of
        None \<Rightarrow> None
      | Some timerConfigIndex \<Rightarrow>
          if MAX_TIMERS p * CC_CHANNELS_PER_TIMER \<le> unat timerConfigIndex then Some timerConfig
          else Some (timerConfig[unat timerConfigIndex :=
                 (timerConfig ! unat timerConfigIndex)
                   \<lparr>channel := chan, edgeCallback := edgeCb,
                    overflowCallback := overflowCb, reference := refr\<rparr>]))"


text \<open>
  The part of a timer peripheral the interrupt handler touches. \<open>IT_Update\<close> is
  \<^verbatim>\<open>TIM_GetITStatus(tim, TIM_IT_Update) == SET\<close>, \<open>IT_CC hw 0\<close> \<dots> \<open>IT_CC hw 3\<close> are the same
  for \<^verbatim>\<open>TIM_IT_CC1\<close> \<dots> \<^verbatim>\<open>TIM_IT_CC4\<close>; \<^verbatim>\<open>TIM_ClearITPendingBit\<close> resets the flag.
  \<open>CCR hw 0\<close> \<dots> \<open>CCR hw 3\<close> are what \<^verbatim>\<open>TIM_GetCapture1\<close> \<dots> \<^verbatim>\<open>TIM_GetCapture4\<close>
  return, \<open>ARR\<close> is the auto-reload register, both as values of \<^verbatim>\<open>captureCompare_t\<close>
  (the type \<open>'c\<close>).
\<close>

record 'c TIM_TypeDef =
  IT_Update :: bool
  IT_CC :: "nat \<Rightarrow> bool"
  ARR :: 'c
  CCR :: "nat \<Rightarrow> 'c"

text \<open>
  A callback is code outside timer.c; the handler's calls are recorded in order, each
  with the callback's address, the reference and the capture value passed. The model
  takes it that a callback does not change the registration table or the pending
  flags.
\<close>

datatype 'c callback_call = Callback nat "8 word" 'c

definition findTimerConfig ::
    "timer_tables \<Rightarrow> timerConfig_t list \<Rightarrow> 32 word \<Rightarrow> 16 word \<Rightarrow> timerConfig_t option" where
  "findTimerConfig p timerConfig timx chan =
     (case lookupTimerConfigIndex p timx chan of
        None \<Rightarrow> None
      | Some timerConfigIndex \<Rightarrow> Some (timerConfig ! unat timerConfigIndex))"

text \<open>A \<^verbatim>\<open>for\<close> loop whose body may not return.\<close>

fun fold_option :: "('s \<Rightarrow> 'a \<Rightarrow> 's option) \<Rightarrow> 'a list \<Rightarrow> 's \<Rightarrow> 's option" where
  "fold_option f [] s = Some s"
| "fold_option f (x # xs) s = (case f s x of None \<Rightarrow> None | Some s' \<Rightarrow> fold_option f xs s')"

text \<open>
  The body of the first loop of \<^verbatim>\<open>timCCxHandler\<close>. The local \<^verbatim>\<open>channel\<close> is a
  \<^verbatim>\<open>uint8_t\<close> that receives the \<^verbatim>\<open>uint16_t\<close> table entry.
\<close>

definition overflow_step ::
    "timer_tables \<Rightarrow> timerConfig_t list \<Rightarrow> 32 word \<Rightarrow> 'c
       \<Rightarrow> 'c callback_call list \<Rightarrow> nat \<Rightarrow> 'c callback_call list option" where
  "overflow_step p timerConfig timx capture calls channelIndex =
     (let chan = (ucast (channels p channelIndex) :: 8 word) in
      case findTimerConfig p timerConfig timx (ucast chan) of
        None \<Rightarrow> None
      | Some cfg \<Rightarrow>
          (case overflowCallback cfg of
             None \<Rightarrow> Some calls
           | Some cb \<Rightarrow> Some (calls @ [Callback cb (reference cfg) capture])))"

text \<open>
  The end of the second loop's body: \<^verbatim>\<open>if (!timerConfig->edgeCallback) continue;\<close> and
  the call.
\<close>

definition invoke_edge ::
    "timerConfig_t option \<Rightarrow> 'c \<Rightarrow> 'c TIM_TypeDef \<Rightarrow> 'c callback_call list
       \<Rightarrow> ('c TIM_TypeDef \<times> 'c callback_call list) option" where
  "invoke_edge found capture hw calls =
     (case found of
        None \<Rightarrow> None
      | Some cfg \<Rightarrow>
          (case edgeCallback cfg of
             None \<Rightarrow> Some (hw, calls)
           | Some cb \<Rightarrow> Some (hw, calls @ [Callback cb (reference cfg) capture])))"

text \<open>The body of the second loop, one branch per channel as in the source.\<close>

definition edge_step ::
    "timer_tables \<Rightarrow> timerConfig_t list \<Rightarrow> 32 word
       \<Rightarrow> 'c TIM_TypeDef \<times> 'c callback_call list \<Rightarrow> nat
       \<Rightarrow> ('c TIM_TypeDef \<times> 'c callback_call list) option" where
  "edge_step p timerConfig timx s channelIndex =
     (case s of (hw, calls) \<Rightarrow>
       (let chan = (ucast (channels p channelIndex) :: 8 word) in
        if ucast chan = TIM_Channel_1 p \<and> IT_CC hw 0 then
          invoke_edge (findTimerConfig p timerConfig timx (TIM_Channel_1 p)) (CCR hw 0)
            (hw\<lparr>IT_CC := (IT_CC hw)(0 := False)\<rparr>) calls
        else if ucast chan = TIM_Channel_2 p \<and> IT_CC hw 1 then
          invoke_edge (findTimerConfig p timerConfig timx (TIM_Channel_2 p)) (CCR hw 1)
            (hw\<lparr>IT_CC := (IT_CC hw)(1 := False)\<rparr>) calls
        else if ucast chan = TIM_Channel_3 p \<and> IT_CC hw 2 then
          invoke_edge (findTimerConfig p timerConfig timx (TIM_Channel_3 p)) (CCR hw 2)
            (hw\<lparr>IT_CC := (IT_CC hw)(2 := False)\<rparr>) calls
        else if ucast chan = TIM_Channel_4 p \<and> IT_CC hw 3 then
          invoke_edge (findTimerConfig p timerConfig timx (TIM_Channel_4 p)) (CCR hw 3)
            (hw\<lparr>IT_CC := (IT_CC hw)(3 := False)\<rparr>) calls
        else Some (hw, calls)))"

definition timCCxHandler ::
    "timer_tables \<Rightarrow> timerConfig_t list \<Rightarrow> 32 word \<Rightarrow> 'c TIM_TypeDef
       \<Rightarrow> ('c TIM_TypeDef \<times> 'c callback_call list) option" where
  "timCCxHandler p timerConfig timx hw =
     (case (if IT_Update hw
            then (case fold_option (overflow_step p timerConfig timx (ARR hw))
                         [0..<CC_CHANNELS_PER_TIMER] [] of
                    None \<Rightarrow> None
                  | Some calls \<Rightarrow> Some (hw\<lparr>IT_Update := False\<rparr>, calls))
            else Some (hw, [])) of
        None \<Rightarrow> None
      | Some s \<Rightarrow> fold_option (edge_step p timerConfig timx) [0..<CC_CHANNELS_PER_TIMER] s)"

text \<open>
  A sequence of registration calls, as the initialisation code makes them: each is
  \<^verbatim>\<open>(tim, channel, reference, edgeCallback, overflowCallback)\<close>.
\<close>

type_synonym registration = "32 word \<times> 8 word \<times> 8 word \<times> nat option \<times> nat option"

definition configureSequence ::
    "timer_tables \<Rightarrow> registration list \<Rightarrow> timerConfig_t list \<Rightarrow> timerConfig_t list option" where
  "configureSequence p regs timerConfig =
     fold_option (\<lambda>cfgs (timx, chan, refr, edgeCb, overflowCb).
        configureTimerChannelCallbacks p timx chan refr edgeCb overflowCb cfgs) regs timerConfig"

text \<open>
  What timer.c's own tables satisfy: at most 64 timers (so that every slot index fits
  the \<^verbatim>\<open>uint8_t\<close> that carries it; the source has 4, 7 or 8), pairwise different timer
  addresses, pairwise different channel constants, each of which fits the \<^verbatim>\<open>uint8_t\<close>
  channel variables of the source.
\<close>

definition tables_ok :: "timer_tables \<Rightarrow> bool" where
  "tables_ok p =
     (MAX_TIMERS p * CC_CHANNELS_PER_TIMER \<le> 256
      \<and> distinct (map (timers p) [0..<MAX_TIMERS p])
      \<and> distinct (map (channels p) [0..<CC_CHANNELS_PER_TIMER])
      \<and> list_all (\<lambda>c. unat c < 256) (map (channels p) [0..<CC_CHANNELS_PER_TIMER]))"


text \<open>
  A concrete build for the examples: the four timers of the first target of timer.c at
  the addresses of the STM32F10x memory map, the channel constants \<open>0, 4, 8, 12\<close>, and
  \<open>next_word\<close> for the word that follows \<^verbatim>\<open>timers[]\<close> in memory.
\<close>

definition example_cfg :: timerConfig_t where
  "example_cfg = \<lparr>tim = 0, channel = 0, edgeCallback = None, overflowCallback = None,
                   reference = 0\<rparr>"

definition naze_tables :: "32 word \<Rightarrow> timer_tables" where
  "naze_tables next_word =
     \<lparr>MAX_TIMERS = 4,
      timers = (\<lambda>i. if i = 0 then 0x40012C00 else if i = 1 then 0x40000000
                     else if i = 2 then 0x40000400 else if i = 3 then 0x40000800
                     else if i = 4 then next_word else 0),
      channels = (\<lambda>i. if i = 0 then 0x0000 else if i = 1 then 0x0004
                     else if i = 2 then 0x0008 else if i = 3 then 0x000C else 0xFFFF)\<rparr>"


definition example_hw :: "16 word TIM_TypeDef" where
  "example_hw = \<lparr>IT_Update = False, IT_CC = (\<lambda>i. i = 2), ARR = 0xFFFF,
                  CCR = (\<lambda>i. 1000 + of_nat i)\<rparr>"

subsection \<open>Parsing the channel map\<close>

definition rcChannelLetters :: string where
  "rcChannelLetters = ''AERT1234''"

text \<open>
  \<^verbatim>\<open>strchr\<close> of the C library, as the offset of the first occurrence of the character or
  \<open>None\<close> for the null pointer. The loop of \<^verbatim>\<open>parseRcChannels\<close> never searches for the
  terminator.
\<close>

fun strchr :: "string \<Rightarrow> char \<Rightarrow> nat option" where
  "strchr [] c = None"
| "strchr (x # xs) c = (if x = c then Some 0 else map_option Suc (strchr xs c))"

text \<open>
  \<^verbatim>\<open>for (c = input; *c; c++)\<close>: \<open>offset\<close> is \<^verbatim>\<open>c - input\<close>, which the assignment to the
  \<^verbatim>\<open>uint8_t\<close> table entry reduces modulo 256. The input ends at its first NUL character
  (or at the end of the list).
\<close>

fun parseRcChannels_loop :: "string \<Rightarrow> nat \<Rightarrow> 8 word list \<Rightarrow> 8 word list" where
  "parseRcChannels_loop [] offset m = m"
| "parseRcChannels_loop (c # cs) offset m =
     (if c = CHR 0x00 then m
      else parseRcChannels_loop cs (Suc offset)
             (case strchr rcChannelLetters c of
                None \<Rightarrow> m
              | Some s \<Rightarrow> m[s := of_nat offset]))"

definition parseRcChannels :: "string \<Rightarrow> rxConfig_t \<Rightarrow> rxConfig_t" where
  "parseRcChannels input cfg = cfg\<lparr>rcmap := parseRcChannels_loop input 0 (rcmap cfg)\<rparr>"

text \<open>The characters of a C string: those before the terminator.\<close>

definition c_string :: "string \<Rightarrow> string" where
  "c_string input = takeWhile (\<lambda>c. c \<noteq> CHR 0x00) input"

definition example_rxConfig :: rxConfig_t where
  "example_rxConfig = \<lparr>rcmap = replicate 8 0xFF, midrc = 1500, rssi_channel = 0\<rparr>"

section \<open>Properties\<close>

subsection \<open>Reading machine words\<close>

lemma sint_nonneg_iff:
  "(0 \<le> sint (w :: 'a::len word)) = (uint w < 2 ^ (LENGTH('a) - 1))"
proof
  assume nonneg: "0 \<le> sint w"
  let ?n = "LENGTH('a) - Suc 0"
  have s: "sint w = signed_take_bit ?n (uint w)" by (simp add: sint_uint)
  have lt: "sint w < 2 ^ ?n" unfolding s by (rule signed_take_bit_int_less_exp)
  have "(2::int) ^ ?n \<le> 2 ^ LENGTH('a)" by (rule power_increasing) simp_all
  with lt have lt': "sint w < 2 ^ LENGTH('a)" by linarith
  have "take_bit LENGTH('a) (sint w) = take_bit LENGTH('a) (uint w)"
    unfolding s by (simp add: take_bit_signed_take_bit)
  moreover have "take_bit LENGTH('a) (sint w) = sint w"
    using nonneg lt' by (simp add: take_bit_int_eq_self)
  moreover have "take_bit LENGTH('a) (uint w) = uint w"
    by (simp add: take_bit_int_eq_self_iff)
  ultimately show "uint w < 2 ^ (LENGTH('a) - 1)" using lt by simp
next
  assume lt: "uint w < 2 ^ (LENGTH('a) - 1)"
  have "- (2 ^ (LENGTH('a) - Suc 0)) \<le> uint w"
    by (rule order_trans [of _ 0]) simp_all
  then have "signed_take_bit (LENGTH('a) - Suc 0) (uint w) = uint w"
    using lt by (intro signed_take_bit_int_eq_self) simp_all
  then have "sint w = uint w" by (simp add: sint_uint)
  then show "0 \<le> sint w" by simp
qed

lemma sint32_nonneg_iff: "(0 \<le> sint (w :: 32 word)) = (unat w < 2 ^ 31)"
proof -
  have "(0 \<le> sint w) = (uint w < 2 ^ (LENGTH(32) - 1))" by (rule sint_nonneg_iff)
  also have "\<dots> = (int (unat w) < int (2 ^ 31))" by simp
  also have "\<dots> = (unat w < 2 ^ 31)" by (rule of_nat_less_iff)
  finally show ?thesis .
qed

lemma unat_of_nat8: "n < 256 \<Longrightarrow> unat (of_nat n :: 8 word) = n"
  by (simp add: unat_of_nat)

subsection \<open>C5: the wrap-around safe due test\<close>

text \<open>
  C5. With no frame pending, the gate \<^verbatim>\<open>(int32_t)(currentTime - rxUpdateAt) >= 0\<close> of
  \<open>shouldProcessRx\<close> is true exactly when the elapsed time, the 32-bit difference
  \<open>currentTime - rxUpdateAt\<close> taken modulo \<open>2^32\<close>, is below \<open>2^31\<close>; the gate of
  \<open>updateRSSIADC\<close> lets an update through (and sets the next deadline) under the same
  condition. In particular a deadline set 16 ticks before the counter wraps
  (\<open>0xFFFFFFF0\<close>) is reported due at \<open>currentTime = 5\<close>, just after the wrap, and the
  deadline \<open>5\<close> is not yet due at \<open>0xFFFFFFF0\<close>.
\<close>

theorem shouldProcessRx_wraparound:
  "shouldProcessRx (st\<lparr>rcDataReceived := False, rxUpdateAt := deadline\<rparr>) now
     = (unat (now - deadline) < 2 ^ 31)
   \<and> rssiUpdateAt (updateRSSIADC adcRssiSample now (st\<lparr>rssiUpdateAt := deadline\<rparr>))
       = (if unat (now - deadline) < 2 ^ 31 then now + DELAY_50_HZ else deadline)
   \<and> shouldProcessRx (st\<lparr>rcDataReceived := False, rxUpdateAt := 0xFFFFFFF0\<rparr>) 5
   \<and> \<not> shouldProcessRx (st\<lparr>rcDataReceived := False, rxUpdateAt := 5\<rparr>) 0xFFFFFFF0"
proof -
  have "(sint (now - deadline) < 0) = (\<not> unat (now - deadline) < 2 ^ 31)"
    using sint32_nonneg_iff [of "now - deadline"] by linarith
  then show ?thesis
    by (simp add: shouldProcessRx_def sint32_nonneg_iff updateRSSIADC_def Let_def)
qed

subsection \<open>C6: channel remapping\<close>

text \<open>
  C6. For every table, entry count and logical channel \<open>k\<close>: \<open>calculateChannelRemapping\<close>
  returns the table entry at \<open>k\<close> when \<open>k\<close> is below the entry count and \<open>k\<close> itself
  otherwise.
\<close>

theorem calculateChannelRemapping_spec:
  "calculateChannelRemapping channelMap n k = (if k < n then channelMap ! unat k else k)"
  by (simp add: calculateChannelRemapping_def)

subsection \<open>C2, C3, C4: the per-tick channel update\<close>

lemma sumSamples_eq:
  assumes "unat k < length (rcDataMean st)"
  shows "sumSamples k st
           = st\<lparr>rcDataMean := (rcDataMean st)
                  [unat k := rcDataMean st ! unat k
                         + rcSamples st ! unat k ! 0 + rcSamples st ! unat k ! 1
                         + rcSamples st ! unat k ! 2 + rcSamples st ! unat k ! 3]\<rparr>"
  using assms
  by (simp add: sumSamples_def PPM_AND_PWM_SAMPLE_COUNT_def upt_rec numeral_2_eq_2 numeral_3_eq_3)

lemma averageSamples_eq:
  assumes "unat k < length (rcDataMean st)"
  shows "averageSamples k st
           = (windowMean (rcSamples st ! unat k),
              st\<lparr>rcDataMean := (rcDataMean st)
                  [unat k := 0 + rcSamples st ! unat k ! 0 + rcSamples st ! unat k ! 1
                         + rcSamples st ! unat k ! 2 + rcSamples st ! unat k ! 3]\<rparr>)"
  using assms
  by (simp add: averageSamples_def sumSamples_eq windowMean_def PPM_AND_PWM_SAMPLE_COUNT_def Let_def)

lemma calculateNonDataDrivenChannel_eq:
  assumes "unat k < length (rcDataMean st)" and "unat k < length (rcSamples st)"
  shows "calculateNonDataDrivenChannel k sample st
           = (let w = (rcSamples st ! unat k)[sampleSlot st := sample];
                  st1 = st\<lparr>rcSamples := (rcSamples st)[unat k := w]\<rparr>
              in if samplesCollected st
                 then (windowMean w,
                       st1\<lparr>rxSamplesCollected := True,
                           rcDataMean := (rcDataMean st)
                             [unat k := 0 + w ! 0 + w ! 1 + w ! 2 + w ! 3]\<rparr>)
                 else (sample, st1))"
  using assms
  by (auto simp: calculateNonDataDrivenChannel_def averageSamples_eq samplesCollected_def
        sampleSlot_def Let_def)

lemma failsafeCalls_if:
  "(if c then st\<lparr>failsafeCalls := a\<rparr> else st)
     = st\<lparr>failsafeCalls := (if c then a else failsafeCalls st)\<rparr>"
  by simp

lemma isRxDataDriven_failsafeCalls:
  "isRxDataDriven (st\<lparr>failsafeCalls := x\<rparr>) = isRxDataDriven st"
  by (simp add: isRxDataDriven_def feature_def)

lemma processRxChannel_poll:
  assumes "\<not> isRxDataDriven st" and "unat k < length (rcDataMean st)"
    and "unat k < length (rcSamples st)"
  shows "processRxChannel (Some readRaw) chk st k
           = (let rawChannel = calculateChannelRemapping (rcmap (rxConfig st))
                                 (REMAPPABLE_CHANNEL_COUNT st) k;
                  v = validSample st (readRaw rawChannel);
                  w = (rcSamples st ! unat k)[sampleSlot st := v];
                  st1 = st\<lparr>failsafeCalls :=
                             (if feature st {FEATURE_FAILSAFE} \<and> chk
                              then failsafeCalls st @ [FailsafeCheckPulse rawChannel (readRaw rawChannel)]
                              else failsafeCalls st),
                           rcSamples := (rcSamples st)[unat k := w]\<rparr>
              in if samplesCollected st
                 then st1\<lparr>rxSamplesCollected := True,
                          rcDataMean := (rcDataMean st)[unat k := 0 + w ! 0 + w ! 1 + w ! 2 + w ! 3],
                          rcData := (rcData st)[unat k := windowMean w]\<rparr>
                 else st1\<lparr>rcData := (rcData st)[unat k := v]\<rparr>)"
proof -
  define rawChannel where "rawChannel = calculateChannelRemapping (rcmap (rxConfig st))
                                 (REMAPPABLE_CHANNEL_COUNT st) k"
  define fc where "fc = (if feature st {FEATURE_FAILSAFE} \<and> chk
                              then failsafeCalls st @ [FailsafeCheckPulse rawChannel (readRaw rawChannel)]
                              else failsafeCalls st)"
  define st1 where "st1 = st\<lparr>failsafeCalls := fc\<rparr>"
  define v where "v = validSample st (readRaw rawChannel)"
  have st1: "\<not> isRxDataDriven st1" "unat k < length (rcDataMean st1)"
    "unat k < length (rcSamples st1)"
    using assms by (simp_all add: st1_def isRxDataDriven_failsafeCalls)
  have cfg: "rxConfig st1 = rxConfig st" by (simp add: st1_def)
  have unfold: "processRxChannel (Some readRaw) chk st k
          = (case calculateNonDataDrivenChannel k v st1 of
               (x, st2) \<Rightarrow> st2\<lparr>rcData := (rcData st2)[unat k := x]\<rparr>)"
    using st1(1)
    by (simp add: cfg processRxChannel_def Let_def failsafeCalls_if validSample_def
          rawChannel_def [symmetric] fc_def [symmetric] st1_def [symmetric] v_def)
  show ?thesis
    unfolding unfold calculateNonDataDrivenChannel_eq [OF st1(2,3)]
    by (simp add: Let_def st1_def samplesCollected_def sampleSlot_def
          rawChannel_def [symmetric] fc_def [symmetric] v_def [symmetric])
qed

lemma processRxChannel_poll_env:
  assumes "\<not> isRxDataDriven st" and "unat k < length (rcDataMean st)"
    and "unat k < length (rcSamples st)"
  shows "same_env (processRxChannel (Some readRaw) chk st k) st"
    and "samplesCollected (processRxChannel (Some readRaw) chk st k) = samplesCollected st"
  using assms
  by (simp_all add: processRxChannel_poll same_env_def samplesCollected_def Let_def)

lemma processRxChannel_poll_rcSamples:
  assumes "\<not> isRxDataDriven st" and "unat k < length (rcDataMean st)"
    and "unat k < length (rcSamples st)"
  shows "rcSamples (processRxChannel (Some readRaw) chk st k)
           = (rcSamples st)[unat k := (rcSamples st ! unat k)
                [sampleSlot st := validSample st (readRaw (calculateChannelRemapping
                    (rcmap (rxConfig st)) (REMAPPABLE_CHANNEL_COUNT st) k))]]"
  using assms by (simp add: processRxChannel_poll Let_def)

lemma processRxChannel_poll_rcData:
  assumes "\<not> isRxDataDriven st" and "unat k < length (rcDataMean st)"
    and "unat k < length (rcSamples st)"
  shows "rcData (processRxChannel (Some readRaw) chk st k)
           = (rcData st)[unat k :=
               (let v = validSample st (readRaw (calculateChannelRemapping
                          (rcmap (rxConfig st)) (REMAPPABLE_CHANNEL_COUNT st) k))
                in if samplesCollected st
                   then windowMean ((rcSamples st ! unat k)[sampleSlot st := v]) else v)]"
  using assms by (simp add: processRxChannel_poll Let_def)

lemma same_env_poll_facts:
  assumes "same_env s st"
  shows "isRxDataDriven s = isRxDataDriven st" and "sampleSlot s = sampleSlot st"
    and "validSample s = validSample st"
    and "calculateChannelRemapping (rcmap (rxConfig s)) (REMAPPABLE_CHANNEL_COUNT s)
           = calculateChannelRemapping (rcmap (rxConfig st)) (REMAPPABLE_CHANNEL_COUNT st)"
  using assms
  by (simp_all add: same_env_def isRxDataDriven_def feature_def sampleSlot_def validSample_def
        fun_eq_iff)

lemma same_env_trans: "same_env a b \<Longrightarrow> same_env b c \<Longrightarrow> same_env a c"
  by (simp add: same_env_def)

lemma same_env_refl: "same_env st st"
  by (simp add: same_env_def)

lemma poll_loop:
  assumes poll: "\<not> isRxDataDriven st" and ok: "rx_arrays_ok st"
    and n: "n \<le> unat (channelCount st)"
  shows "same_env (foldl (processRxChannel (Some readRaw) chk) st (map of_nat [0..<n])) st
    \<and> samplesCollected (foldl (processRxChannel (Some readRaw) chk) st (map of_nat [0..<n]))
        = samplesCollected st
    \<and> (\<forall>c. rcSamples (foldl (processRxChannel (Some readRaw) chk) st (map of_nat [0..<n])) ! c
            = (if c < n then pollWindow st readRaw c else rcSamples st ! c))
    \<and> (\<forall>c. rcData (foldl (processRxChannel (Some readRaw) chk) st (map of_nat [0..<n])) ! c
            = (if c < n then pollPublished st readRaw c else rcData st ! c))"
  using n
proof (induction n)
  case 0
  show ?case by (simp add: same_env_refl)
next
  case (Suc n)
  let ?s = "foldl (processRxChannel (Some readRaw) chk) st (map of_nat [0..<n])"
  let ?k = "of_nat n :: 8 word"
  from Suc.prems have nlt: "n < unat (channelCount st)" by simp
  with Suc.IH have env: "same_env ?s st" and col: "samplesCollected ?s = samplesCollected st"
    and smp: "\<And>c. rcSamples ?s ! c = (if c < n then pollWindow st readRaw c else rcSamples st ! c)"
    and dat: "\<And>c. rcData ?s ! c = (if c < n then pollPublished st readRaw c else rcData st ! c)"
    by simp_all
  have "unat (channelCount st) < 256" using unsigned_less [of "channelCount st", where 'a = nat] by simp
  with nlt have k: "unat ?k = n" by (simp add: unat_of_nat)
  have lens: "n < length (rcDataMean ?s)" "n < length (rcSamples ?s)" "n < length (rcData ?s)"
    using ok nlt env by (simp_all add: rx_arrays_ok_def same_env_def)
  have pres: "\<not> isRxDataDriven ?s" "unat ?k < length (rcDataMean ?s)" "unat ?k < length (rcSamples ?s)"
    using poll lens same_env_poll_facts(1) [OF env] by (simp_all add: k)
  have step: "foldl (processRxChannel (Some readRaw) chk) st (map of_nat [0..<Suc n])
                = processRxChannel (Some readRaw) chk ?s ?k"
    by simp
  have env': "same_env (processRxChannel (Some readRaw) chk ?s ?k) st"
    using processRxChannel_poll_env(1) [OF pres] env by (rule same_env_trans)
  have col': "samplesCollected (processRxChannel (Some readRaw) chk ?s ?k) = samplesCollected st"
    using processRxChannel_poll_env(2) [OF pres] col by simp
  have v: "validSample ?s (readRaw (calculateChannelRemapping (rcmap (rxConfig ?s))
              (REMAPPABLE_CHANNEL_COUNT ?s) ?k)) = pollSample st readRaw n"
    by (simp add: same_env_poll_facts [OF env] pollSample_def rawSample_def)
  have w: "(rcSamples ?s ! n)[sampleSlot ?s := pollSample st readRaw n] = pollWindow st readRaw n"
    by (simp add: smp same_env_poll_facts(2) [OF env] pollWindow_def)
  have smp': "rcSamples (processRxChannel (Some readRaw) chk ?s ?k)
                = (rcSamples ?s)[n := pollWindow st readRaw n]"
    unfolding processRxChannel_poll_rcSamples [OF pres] v k w ..
  have dat': "rcData (processRxChannel (Some readRaw) chk ?s ?k)
                = (rcData ?s)[n := pollPublished st readRaw n]"
    unfolding processRxChannel_poll_rcData [OF pres] v k
    by (simp add: Let_def w col pollPublished_def)
  have "\<forall>c. rcSamples (processRxChannel (Some readRaw) chk ?s ?k) ! c
            = (if c < Suc n then pollWindow st readRaw c else rcSamples st ! c)"
    unfolding smp' using lens(2) by (simp add: nth_list_update smp less_Suc_eq)
  moreover have "\<forall>c. rcData (processRxChannel (Some readRaw) chk ?s ?k) ! c
            = (if c < Suc n then pollPublished st readRaw c else rcData st ! c)"
    unfolding dat' using lens(3) by (simp add: nth_list_update dat less_Suc_eq)
  ultimately show ?case
    unfolding step using env' col' by blast
qed

lemma poll_tick:
  assumes poll: "\<not> isRxDataDriven st" and ok: "rx_arrays_ok st"
    and sti_def: "sti = st\<lparr>rcSampleIndex := rcSampleIndex st + 1\<rparr>"
    and st'_def: "st' = processNonDataDrivenRx (Some readRaw) ppm st"
  shows "same_env st' sti" and "samplesCollected st' = samplesCollected sti"
    and "\<not> isRxDataDriven st'" and "rx_arrays_ok st'"
    and "c < unat (channelCount st) \<Longrightarrow> rcSamples st' ! c = pollWindow sti readRaw c"
    and "c < unat (channelCount st) \<Longrightarrow> rcData st' ! c = pollPublished sti readRaw c"
proof -
  have poll_i: "\<not> isRxDataDriven sti" using poll by (simp add: sti_def isRxDataDriven_def feature_def)
  have ok_i: "rx_arrays_ok sti" using ok by (simp add: sti_def rx_arrays_ok_def)
  have cc: "channelCount sti = channelCount st" by (simp add: sti_def)
  define chk where "chk = (if feature sti {FEATURE_FAILSAFE, FEATURE_RX_PPM} then ppm else True)"
  have st': "st' = foldl (processRxChannel (Some readRaw) chk) sti
                     (map of_nat [0..<unat (channelCount sti)])"
    by (simp add: st'_def processNonDataDrivenRx_def processRxChannels_def sti_def chk_def Let_def)
  note L = poll_loop [OF poll_i ok_i order_refl, of readRaw chk, folded st']
  from L show env: "same_env st' sti" and "samplesCollected st' = samplesCollected sti"
    by simp_all
  from same_env_poll_facts(1) [OF env] poll_i show "\<not> isRxDataDriven st'" by simp
  from L have smp: "\<And>c. rcSamples st' ! c
      = (if c < unat (channelCount sti) then pollWindow sti readRaw c else rcSamples sti ! c)"
    by simp
  have "length (rcSamples st' ! j) = PPM_AND_PWM_SAMPLE_COUNT" if "j < length (rcSamples st')" for j
  proof -
    from that env have "j < length (rcSamples sti)" by (simp add: same_env_def)
    with ok_i have "length (rcSamples sti ! j) = PPM_AND_PWM_SAMPLE_COUNT"
      by (simp add: rx_arrays_ok_def list_all_length)
    then show ?thesis by (simp add: smp pollWindow_def)
  qed
  then have "list_all (\<lambda>w. length w = PPM_AND_PWM_SAMPLE_COUNT) (rcSamples st')"
    by (simp add: list_all_length)
  with ok_i env show "rx_arrays_ok st'" by (simp add: rx_arrays_ok_def same_env_def)
  show "rcSamples st' ! c = pollWindow sti readRaw c" if "c < unat (channelCount st)"
    using smp [of c] that cc by simp
  show "rcData st' ! c = pollPublished sti readRaw c" if "c < unat (channelCount st)"
    using L that cc by simp
qed

lemma sint_eq_uint_small:
  assumes "uint (w :: 'a::len word) < 2 ^ (LENGTH('a) - 1)"
  shows "sint w = uint w"
proof -
  have "- (2 ^ (LENGTH('a) - Suc 0)) \<le> uint w"
    by (rule order_trans [of _ 0]) simp_all
  then have "signed_take_bit (LENGTH('a) - Suc 0) (uint w) = uint w"
    using assms by (intro signed_take_bit_int_eq_self) simp_all
  then show ?thesis by (simp add: sint_uint)
qed

lemma sdiv_nonneg:
  assumes "0 \<le> (k::int)" and "0 < l"
  shows "k sdiv l = k div l"
proof (cases "k = 0")
  case True
  then show ?thesis by (simp add: signed_divide_int_def)
next
  case False
  with assms have "sgn k = 1" and "sgn l = 1" and "\<bar>k\<bar> = k" and "\<bar>l\<bar> = l" by simp_all
  then show ?thesis by (simp add: signed_divide_int_def)
qed

lemma windowMean_small:
  assumes "unat (w ! 0) \<le> 8191" and "unat (w ! 1) \<le> 8191"
    and "unat (w ! 2) \<le> 8191" and "unat (w ! 3) \<le> 8191"
  shows "unat (windowMean w) = (unat (w ! 0) + unat (w ! 1) + unat (w ! 2) + unat (w ! 3)) div 4"
proof -
  let ?S = "unat (w ! 0) + unat (w ! 1) + unat (w ! 2) + unat (w ! 3)"
  have S: "?S \<le> 32764" using assms by simp
  have u: "unat (0 + w ! 0 + w ! 1 + w ! 2 + w ! 3) = ?S"
    using S by (simp add: unat_word_ariths)
  then have ui: "uint (0 + w ! 0 + w ! 1 + w ! 2 + w ! 3) = int ?S"
    by (metis uint_nat)
  have "int ?S < 32768" using S by linarith
  then have "uint (0 + w ! 0 + w ! 1 + w ! 2 + w ! 3) < 32768" by (simp only: ui)
  then have "uint (0 + w ! 0 + w ! 1 + w ! 2 + w ! 3) < 2 ^ (LENGTH(16) - 1)" by simp
  then have "sint (0 + w ! 0 + w ! 1 + w ! 2 + w ! 3) = int ?S"
    using ui by (simp only: sint_eq_uint_small)
  moreover have "int ?S sdiv 4 = int ?S div 4" by (rule sdiv_nonneg) simp_all
  moreover have "int ?S div 4 = int (?S div 4)" by (simp only: zdiv_int of_nat_numeral)
  ultimately have "sint (0 + w ! 0 + w ! 1 + w ! 2 + w ! 3) sdiv 4 = int (?S div 4)"
    by (simp only:)
  then have "windowMean w = of_nat (?S div 4)"
    by (simp add: windowMean_def)
  moreover have "?S div 4 < 2 ^ LENGTH(16)" using S by simp
  ultimately show ?thesis by (simp add: unat_of_nat)
qed

lemma poll_tick_summary:
  assumes poll: "\<not> isRxDataDriven st" and ok: "rx_arrays_ok st"
    and st': "st' = processNonDataDrivenRx (Some readRaw) ppm st"
  shows "\<not> isRxDataDriven st'" and "rx_arrays_ok st'"
    and "channelCount st' = channelCount st" and "rxConfig st' = rxConfig st"
    and "REMAPPABLE_CHANNEL_COUNT st' = REMAPPABLE_CHANNEL_COUNT st"
    and "rcSampleIndex st' = rcSampleIndex st + 1"
    and "samplesCollected st'
           = (rxSamplesCollected st \<or> PPM_AND_PWM_SAMPLE_COUNT \<le> unat (rcSampleIndex st + 1))"
    and "c < unat (channelCount st) \<Longrightarrow>
           rcSamples st' ! c
             = (rcSamples st ! c)[unat (rcSampleIndex st + 1) mod PPM_AND_PWM_SAMPLE_COUNT
                                    := pollSample st readRaw c]"
    and "c < unat (channelCount st) \<Longrightarrow>
           rcData st' ! c
             = (if rxSamplesCollected st \<or> PPM_AND_PWM_SAMPLE_COUNT \<le> unat (rcSampleIndex st + 1)
                then windowMean (rcSamples st' ! c) else pollSample st readRaw c)"
proof -
  define sti where "sti = st\<lparr>rcSampleIndex := rcSampleIndex st + 1\<rparr>"
  note T = poll_tick [OF poll ok sti_def st']
  have ps: "pollSample sti readRaw c = pollSample st readRaw c" for c
    by (simp add: sti_def pollSample_def validSample_def rawSample_def)
  have pw: "pollWindow sti readRaw c
              = (rcSamples st ! c)[unat (rcSampleIndex st + 1) mod PPM_AND_PWM_SAMPLE_COUNT
                                    := pollSample st readRaw c]" for c
    by (simp add: pollWindow_def ps) (simp add: sti_def sampleSlot_def)
  have sc: "samplesCollected sti
              = (rxSamplesCollected st \<or> PPM_AND_PWM_SAMPLE_COUNT \<le> unat (rcSampleIndex st + 1))"
    by (simp add: sti_def samplesCollected_def)
  show "\<not> isRxDataDriven st'" and "rx_arrays_ok st'" by (rule T(3), rule T(4))
  from T(1) show "channelCount st' = channelCount st" and "rxConfig st' = rxConfig st"
    and "REMAPPABLE_CHANNEL_COUNT st' = REMAPPABLE_CHANNEL_COUNT st"
    and "rcSampleIndex st' = rcSampleIndex st + 1"
    by (simp_all add: same_env_def sti_def)
  from T(2) sc show "samplesCollected st'
           = (rxSamplesCollected st \<or> PPM_AND_PWM_SAMPLE_COUNT \<le> unat (rcSampleIndex st + 1))"
    by simp
  show w: "rcSamples st' ! c
             = (rcSamples st ! c)[unat (rcSampleIndex st + 1) mod PPM_AND_PWM_SAMPLE_COUNT
                                    := pollSample st readRaw c]"
    if "c < unat (channelCount st)"
    using T(5) [OF that] pw by simp
  show "rcData st' ! c
             = (if rxSamplesCollected st \<or> PPM_AND_PWM_SAMPLE_COUNT \<le> unat (rcSampleIndex st + 1)
                then windowMean (rcSamples st' ! c) else pollSample st readRaw c)"
    if "c < unat (channelCount st)"
    using T(6) [OF that] w [OF that] pw sc ps by (simp add: pollPublished_def)
qed

lemma pollSample_cong:
  "rxConfig s = rxConfig st \<Longrightarrow> REMAPPABLE_CHANNEL_COUNT s = REMAPPABLE_CHANNEL_COUNT st
     \<Longrightarrow> pollSample s readRaw c = pollSample st readRaw c"
  by (simp add: pollSample_def validSample_def rawSample_def)

lemma not_collected:
  "samplesCollected st = False \<Longrightarrow> \<not> rxSamplesCollected st"
  by (simp add: samplesCollected_def)

text \<open>
  C2. In POLL mode, from startup (\<open>rcSampleIndex = 0\<close>, no samples collected), let five
  successive ticks deliver for channel \<open>c\<close> the validated samples \<open>s0\<close> \<dots> \<open>s4\<close> (each
  at most 8191, as every accepted pulse width and mid-stick value is, so that four of
  them fit the 16-bit sum). The first three ticks publish \<open>s0\<close>, \<open>s1\<close>, \<open>s2\<close> unchanged,
  the fourth publishes \<open>(s0 + s1 + s2 + s3) div 4\<close> and the fifth
  \<open>(s4 + s1 + s2 + s3) div 4\<close>: the slot that held \<open>s0\<close> was overwritten.
\<close>

theorem poll_mode_smoothing:
  assumes poll: "\<not> isRxDataDriven st0" and ok: "rx_arrays_ok st0"
    and start: "rcSampleIndex st0 = 0" "\<not> rxSamplesCollected st0"
    and c: "c < unat (channelCount st0)"
    and ticks: "st1 = processNonDataDrivenRx (Some r0) p0 st0"
      "st2 = processNonDataDrivenRx (Some r1) p1 st1"
      "st3 = processNonDataDrivenRx (Some r2) p2 st2"
      "st4 = processNonDataDrivenRx (Some r3) p3 st3"
      "st5 = processNonDataDrivenRx (Some r4) p4 st4"
    and samples: "s0 = pollSample st0 r0 c" "s1 = pollSample st0 r1 c" "s2 = pollSample st0 r2 c"
      "s3 = pollSample st0 r3 c" "s4 = pollSample st0 r4 c"
    and small: "unat s0 \<le> 8191" "unat s1 \<le> 8191" "unat s2 \<le> 8191" "unat s3 \<le> 8191"
      "unat s4 \<le> 8191"
  shows "rcData st1 ! c = s0 \<and> rcData st2 ! c = s1 \<and> rcData st3 ! c = s2
     \<and> unat (rcData st4 ! c) = (unat s0 + unat s1 + unat s2 + unat s3) div 4
     \<and> unat (rcData st5 ! c) = (unat s4 + unat s1 + unat s2 + unat s3) div 4"
proof -
  let ?W0 = "rcSamples st0 ! c"
  have len: "length ?W0 = 4"
    using ok c by (simp add: rx_arrays_ok_def list_all_length PPM_AND_PWM_SAMPLE_COUNT_def)
  note A = poll_tick_summary [OF poll ok ticks(1)]
  have c1: "c < unat (channelCount st1)" using c A(3) by simp
  have i1: "rcSampleIndex st1 = 1" using A(6) start(1) by simp
  have n1: "\<not> rxSamplesCollected st1"
    using A(7) start by (intro not_collected) (simp add: PPM_AND_PWM_SAMPLE_COUNT_def)
  have w1: "rcSamples st1 ! c = ?W0[1 := s0]"
    using A(8) [OF c] start by (simp add: samples PPM_AND_PWM_SAMPLE_COUNT_def)
  have d1: "rcData st1 ! c = s0"
    using A(9) [OF c] start by (simp add: samples PPM_AND_PWM_SAMPLE_COUNT_def)
  note B = poll_tick_summary [OF A(1,2) ticks(2)]
  have e2: "pollSample st1 r c = pollSample st0 r c" for r
    using A(4,5) by (rule pollSample_cong)
  have c2: "c < unat (channelCount st2)" using c1 B(3) by simp
  have i2: "rcSampleIndex st2 = 2" using B(6) i1 by simp
  have n2: "\<not> rxSamplesCollected st2"
    using B(7) n1 i1 by (intro not_collected) (simp add: PPM_AND_PWM_SAMPLE_COUNT_def)
  have w2: "rcSamples st2 ! c = ?W0[1 := s0, 2 := s1]"
    using B(8) [OF c1] i1 w1 by (simp add: samples e2 PPM_AND_PWM_SAMPLE_COUNT_def)
  have d2: "rcData st2 ! c = s1"
    using B(9) [OF c1] i1 n1 by (simp add: samples e2 PPM_AND_PWM_SAMPLE_COUNT_def)
  note C = poll_tick_summary [OF B(1,2) ticks(3)]
  have e3: "pollSample st2 r c = pollSample st0 r c" for r
    using pollSample_cong [OF B(4,5)] e2 by simp
  have c3: "c < unat (channelCount st3)" using c2 C(3) by simp
  have i3: "rcSampleIndex st3 = 3" using C(6) i2 by simp
  have n3: "\<not> rxSamplesCollected st3"
    using C(7) n2 i2 by (intro not_collected) (simp add: PPM_AND_PWM_SAMPLE_COUNT_def)
  have w3: "rcSamples st3 ! c = ?W0[1 := s0, 2 := s1, 3 := s2]"
    using C(8) [OF c2] i2 w2 by (simp add: samples e3 PPM_AND_PWM_SAMPLE_COUNT_def)
  have d3: "rcData st3 ! c = s2"
    using C(9) [OF c2] i2 n2 by (simp add: samples e3 PPM_AND_PWM_SAMPLE_COUNT_def)
  note D = poll_tick_summary [OF C(1,2) ticks(4)]
  have e4: "pollSample st3 r c = pollSample st0 r c" for r
    using pollSample_cong [OF C(4,5)] e3 by simp
  have c4: "c < unat (channelCount st4)" using c3 D(3) by simp
  have i4: "rcSampleIndex st4 = 4" using D(6) i3 by simp
  have w4: "rcSamples st4 ! c = ?W0[1 := s0, 2 := s1, 3 := s2, 0 := s3]"
    using D(8) [OF c3] i3 w3 by (simp add: samples e4 PPM_AND_PWM_SAMPLE_COUNT_def)
  have d4: "rcData st4 ! c = windowMean (?W0[1 := s0, 2 := s1, 3 := s2, 0 := s3])"
    using D(9) [OF c3] i3 w4 by (simp add: PPM_AND_PWM_SAMPLE_COUNT_def)
  have m4: "unat (windowMean (?W0[1 := s0, 2 := s1, 3 := s2, 0 := s3]))
              = (unat s3 + unat s0 + unat s1 + unat s2) div 4"
    using windowMean_small [of "?W0[1 := s0, 2 := s1, 3 := s2, 0 := s3]"] len small
    by simp
  note E = poll_tick_summary [OF D(1,2) ticks(5)]
  have e5: "pollSample st4 r c = pollSample st0 r c" for r
    using pollSample_cong [OF D(4,5)] e4 by simp
  have w5: "rcSamples st5 ! c = ?W0[1 := s0, 2 := s1, 3 := s2, 0 := s3, 1 := s4]"
    using E(8) [OF c4] i4 w4 by (simp add: samples e5 PPM_AND_PWM_SAMPLE_COUNT_def)
  have d5: "rcData st5 ! c = windowMean (?W0[1 := s0, 2 := s1, 3 := s2, 0 := s3, 1 := s4])"
    using E(9) [OF c4] i4 w5 by (simp add: PPM_AND_PWM_SAMPLE_COUNT_def)
  have m5: "unat (windowMean (?W0[1 := s0, 2 := s1, 3 := s2, 0 := s3, 1 := s4]))
              = (unat s3 + unat s4 + unat s1 + unat s2) div 4"
    using windowMean_small [of "?W0[1 := s0, 2 := s1, 3 := s2, 0 := s3, 1 := s4]"] len small
    by simp
  show ?thesis
    using d1 d2 d3 d4 m4 d5 m5 by (simp add: add.commute add.left_commute)
qed

lemma example_poll_state_ok:
  "\<not> isRxDataDriven example_poll_state" "rx_arrays_ok example_poll_state"
  "rcSampleIndex example_poll_state = 0" "\<not> rxSamplesCollected example_poll_state"
  "0 < unat (channelCount example_poll_state)"
  by (simp_all add: example_poll_state_def isRxDataDriven_def feature_def rx_arrays_ok_def
        PPM_AND_PWM_SAMPLE_COUNT_def)

lemma example_pollSample:
  "unat v \<le> 2250 \<Longrightarrow> 750 \<le> unat v \<Longrightarrow> pollSample example_poll_state (\<lambda>_. v) 0 = v"
  by (simp add: pollSample_def validSample_def rawSample_def PULSE_MIN_def PULSE_MAX_def
        word_less_nat_alt)

theorem poll_mode_smoothing_witness:
  "unat (rcData (processNonDataDrivenRx (Some (\<lambda>_. 1301)) False
          (processNonDataDrivenRx (Some (\<lambda>_. 1200)) False
            (processNonDataDrivenRx (Some (\<lambda>_. 1100)) False
              (processNonDataDrivenRx (Some (\<lambda>_. 1000)) False example_poll_state)))) ! 0)
     = 1150
   \<and> unat (rcData (processNonDataDrivenRx (Some (\<lambda>_. 2000)) False
          (processNonDataDrivenRx (Some (\<lambda>_. 1301)) False
            (processNonDataDrivenRx (Some (\<lambda>_. 1200)) False
              (processNonDataDrivenRx (Some (\<lambda>_. 1100)) False
                (processNonDataDrivenRx (Some (\<lambda>_. 1000)) False example_poll_state))))) ! 0)
     = 1400"
proof -
  have s: "pollSample example_poll_state (\<lambda>_. 1000) 0 = 1000"
    "pollSample example_poll_state (\<lambda>_. 1100) 0 = 1100"
    "pollSample example_poll_state (\<lambda>_. 1200) 0 = 1200"
    "pollSample example_poll_state (\<lambda>_. 1301) 0 = 1301"
    "pollSample example_poll_state (\<lambda>_. 2000) 0 = 2000"
    by (simp_all add: example_pollSample)
  have small: "unat (pollSample example_poll_state (\<lambda>_. 1000) 0) \<le> 8191"
    "unat (pollSample example_poll_state (\<lambda>_. 1100) 0) \<le> 8191"
    "unat (pollSample example_poll_state (\<lambda>_. 1200) 0) \<le> 8191"
    "unat (pollSample example_poll_state (\<lambda>_. 1301) 0) \<le> 8191"
    "unat (pollSample example_poll_state (\<lambda>_. 2000) 0) \<le> 8191"
    by (simp_all add: s)
  from poll_mode_smoothing [OF example_poll_state_ok refl refl refl refl refl refl refl refl
         refl refl small]
  show ?thesis by (simp add: s)
qed

text \<open>
  C3. In POLL mode, for every channel \<open>c\<close> below the channel count, a tick stores in the
  slot of the channel's window the mid-stick value when the raw sample is below 750 or
  above 2250, and the raw sample otherwise; the other slots keep their values; and the
  published value is the mean of the window so updated, or the stored value itself
  before four samples were collected. The raw out-of-window value is not used.
\<close>

theorem out_of_window_sample_replaced:
  assumes "\<not> isRxDataDriven st" and "rx_arrays_ok st" and "c < unat (channelCount st)"
  shows "(let raw = rawSample st readRaw c;
              st' = processNonDataDrivenRx (Some readRaw) ppm st;
              slot = unat (rcSampleIndex st + 1) mod PPM_AND_PWM_SAMPLE_COUNT;
              stored = (if raw < PULSE_MIN \<or> PULSE_MAX < raw then midrc (rxConfig st) else raw)
          in rcSamples st' ! c = (rcSamples st ! c)[slot := stored]
           \<and> rcSamples st' ! c ! slot = stored
           \<and> rcData st' ! c
               = (if rxSamplesCollected st
                     \<or> PPM_AND_PWM_SAMPLE_COUNT \<le> unat (rcSampleIndex st + 1)
                  then windowMean (rcSamples st' ! c) else stored))"
proof -
  note T = poll_tick_summary
             [OF assms(1,2) refl [of "processNonDataDrivenRx (Some readRaw) ppm st"]]
  have len: "length (rcSamples st ! c) = PPM_AND_PWM_SAMPLE_COUNT"
    using assms(2,3) by (simp add: rx_arrays_ok_def list_all_length)
  have slot: "unat (rcSampleIndex st + 1) mod PPM_AND_PWM_SAMPLE_COUNT < length (rcSamples st ! c)"
    unfolding len by (simp add: PPM_AND_PWM_SAMPLE_COUNT_def)
  have ps: "pollSample st readRaw c
              = (if rawSample st readRaw c < PULSE_MIN \<or> PULSE_MAX < rawSample st readRaw c
                 then midrc (rxConfig st) else rawSample st readRaw c)"
    by (simp add: pollSample_def validSample_def)
  show ?thesis
    unfolding Let_def T(8) [OF assms(3)] T(9) [OF assms(3)] ps [symmetric]
    using slot by simp
qed

theorem out_of_window_sample_replaced_witness:
  "rawSample example_poll_state (\<lambda>_. 300) 0 = 300
   \<and> rcSamples (processNonDataDrivenRx (Some (\<lambda>_. 300)) False example_poll_state) ! 0
       = [0, 1500, 0, 0]
   \<and> rcData (processNonDataDrivenRx (Some (\<lambda>_. 300)) False example_poll_state) ! 0 = 1500"
proof -
  have raw: "rawSample example_poll_state (\<lambda>_. 300) 0 = 300" by (simp add: rawSample_def)
  have st: "rcSampleIndex example_poll_state = 0" "midrc (rxConfig example_poll_state) = 1500"
    "rcSamples example_poll_state ! 0 = [0, 0, 0, 0]" "\<not> rxSamplesCollected example_poll_state"
    by (simp_all add: example_poll_state_def)
  from out_of_window_sample_replaced [OF example_poll_state_ok(1,2,5), of "\<lambda>_. 300" False]
  show ?thesis
    by (simp add: Let_def raw st PULSE_MIN_def PULSE_MAX_def PPM_AND_PWM_SAMPLE_COUNT_def)
qed

lemma processRxChannel_push:
  assumes "isRxDataDriven st"
  shows "processRxChannel (Some readRaw) chk st k
           = (let rawChannel = calculateChannelRemapping (rcmap (rxConfig st))
                                 (REMAPPABLE_CHANNEL_COUNT st) k
              in st\<lparr>failsafeCalls :=
                       (if feature st {FEATURE_FAILSAFE} \<and> chk
                        then failsafeCalls st @ [FailsafeCheckPulse rawChannel (readRaw rawChannel)]
                        else failsafeCalls st),
                     rcData := (rcData st)[unat k := validSample st (readRaw rawChannel)]\<rparr>)"
proof -
  have "isRxDataDriven (st\<lparr>failsafeCalls := x\<rparr>)" for x
    using assms by (simp add: isRxDataDriven_failsafeCalls)
  then show ?thesis
    by (simp add: processRxChannel_def Let_def failsafeCalls_if validSample_def)
qed

lemma push_loop:
  assumes push: "isRxDataDriven st" and len: "unat (channelCount st) \<le> length (rcData st)"
    and n: "n \<le> unat (channelCount st)"
  shows "same_env (foldl (processRxChannel (Some readRaw) chk) st (map of_nat [0..<n])) st
    \<and> rcSamples (foldl (processRxChannel (Some readRaw) chk) st (map of_nat [0..<n]))
        = rcSamples st
    \<and> rcDataMean (foldl (processRxChannel (Some readRaw) chk) st (map of_nat [0..<n]))
        = rcDataMean st
    \<and> rxSamplesCollected (foldl (processRxChannel (Some readRaw) chk) st (map of_nat [0..<n]))
        = rxSamplesCollected st
    \<and> (\<forall>c. rcData (foldl (processRxChannel (Some readRaw) chk) st (map of_nat [0..<n])) ! c
            = (if c < n then validSample st (rawSample st readRaw c) else rcData st ! c))"
  using n
proof (induction n)
  case 0
  show ?case by (simp add: same_env_refl)
next
  case (Suc n)
  let ?s = "foldl (processRxChannel (Some readRaw) chk) st (map of_nat [0..<n])"
  let ?k = "of_nat n :: 8 word"
  from Suc.prems have nlt: "n < unat (channelCount st)" by simp
  with Suc.IH have env: "same_env ?s st" and smp: "rcSamples ?s = rcSamples st"
    and mean: "rcDataMean ?s = rcDataMean st"
    and col: "rxSamplesCollected ?s = rxSamplesCollected st"
    and dat: "\<And>c. rcData ?s ! c
                = (if c < n then validSample st (rawSample st readRaw c) else rcData st ! c)"
    by simp_all
  have "unat (channelCount st) < 256" using unsigned_less [of "channelCount st", where 'a = nat] by simp
  with nlt have k: "unat ?k = n" by (simp add: unat_of_nat)
  have ln: "n < length (rcData ?s)" using len nlt env by (simp add: same_env_def)
  have push': "isRxDataDriven ?s" using push same_env_poll_facts(1) [OF env] by simp
  have step: "foldl (processRxChannel (Some readRaw) chk) st (map of_nat [0..<Suc n])
                = processRxChannel (Some readRaw) chk ?s ?k"
    by simp
  have v: "validSample ?s (readRaw (calculateChannelRemapping (rcmap (rxConfig ?s))
              (REMAPPABLE_CHANNEL_COUNT ?s) ?k)) = validSample st (rawSample st readRaw n)"
    by (simp add: same_env_poll_facts [OF env] rawSample_def)
  have body: "processRxChannel (Some readRaw) chk ?s ?k
           = ?s\<lparr>failsafeCalls :=
                    (if feature ?s {FEATURE_FAILSAFE} \<and> chk
                     then failsafeCalls ?s @ [FailsafeCheckPulse
                            (calculateChannelRemapping (rcmap (rxConfig ?s))
                               (REMAPPABLE_CHANNEL_COUNT ?s) ?k)
                            (readRaw (calculateChannelRemapping (rcmap (rxConfig ?s))
                               (REMAPPABLE_CHANNEL_COUNT ?s) ?k))]
                     else failsafeCalls ?s),
                  rcData := (rcData ?s)[n := validSample st (rawSample st readRaw n)]\<rparr>"
    unfolding processRxChannel_push [OF push'] Let_def v k ..
  have "same_env (processRxChannel (Some readRaw) chk ?s ?k) st"
    unfolding body using env by (simp add: same_env_def)
  moreover have "rcSamples (processRxChannel (Some readRaw) chk ?s ?k) = rcSamples st"
    and "rcDataMean (processRxChannel (Some readRaw) chk ?s ?k) = rcDataMean st"
    and "rxSamplesCollected (processRxChannel (Some readRaw) chk ?s ?k) = rxSamplesCollected st"
    unfolding body using smp mean col by simp_all
  moreover have "\<forall>c. rcData (processRxChannel (Some readRaw) chk ?s ?k) ! c
            = (if c < Suc n then validSample st (rawSample st readRaw c) else rcData st ! c)"
    unfolding body using ln by (simp add: nth_list_update dat less_Suc_eq)
  ultimately show ?case unfolding step by blast
qed

lemma updateRx_env:
  "same_env (updateRx a b st) (st\<lparr>rcDataReceived := rcDataReceived (updateRx a b st)\<rparr>)"
  "rcData (updateRx a b st) = rcData st" "rcSamples (updateRx a b st) = rcSamples st"
  "rcDataMean (updateRx a b st) = rcDataMean st"
  "rxSamplesCollected (updateRx a b st) = rxSamplesCollected st"
  by (simp_all add: updateRx_def Let_def same_env_def feature_def)

lemma updateRx_no_frame: "\<not> rcDataReceived (updateRx False False st)"
  by (simp add: updateRx_def Let_def feature_def)

lemma calculateRx_push_no_frame:
  assumes "isRxDataDriven st" and "\<not> rcDataReceived st"
  shows "calculateRxChannelsAndUpdateFailsafe f ppm t st
           = st\<lparr>rxUpdateAt := t + DELAY_50_HZ,
                 failsafeCalls := (if feature st {FEATURE_FAILSAFE}
                                   then failsafeCalls st @ [FailsafeIncrementCounter]
                                   else failsafeCalls st)\<rparr>"
  using assms
  by (simp add: calculateRxChannelsAndUpdateFailsafe_def processDataDrivenRx_def Let_def
        isRxDataDriven_def feature_def)

lemma calculateRx_push_frame:
  assumes push: "isRxDataDriven st" and frame: "rcDataReceived st"
    and len: "unat (channelCount st) \<le> length (rcData st)"
    and st'_def: "st' = calculateRxChannelsAndUpdateFailsafe (Some readRaw) ppm t st"
  shows "same_env st' (st\<lparr>rcDataReceived := False\<rparr>)"
    and "rcSamples st' = rcSamples st" and "rcDataMean st' = rcDataMean st"
    and "rxSamplesCollected st' = rxSamplesCollected st"
    and "c < unat (channelCount st) \<Longrightarrow> rcData st' ! c = validSample st (rawSample st readRaw c)"
proof -
  define st2 where "st2 = st\<lparr>rxUpdateAt := t + DELAY_50_HZ,
      failsafeCalls := (if feature st {FEATURE_FAILSAFE}
                        then failsafeCalls st @ [FailsafeIncrementCounter] else failsafeCalls st)
                          @ [FailsafeReset]\<rparr>"
  define chk where "chk = (if feature st2 {FEATURE_FAILSAFE, FEATURE_RX_PPM} then ppm else True)"
  define loop where "loop = foldl (processRxChannel (Some readRaw) chk) st2
                              (map of_nat [0..<unat (channelCount st2)])"
  have e2: "same_env st2 st" by (simp add: st2_def same_env_def)
  have p2: "isRxDataDriven st2" using push same_env_poll_facts(1) [OF e2] by simp
  have l2: "unat (channelCount st2) \<le> length (rcData st2)" using len by (simp add: st2_def)
  have st': "st' = loop\<lparr>rcDataReceived := False\<rparr>"
    using push frame
    by (simp add: st'_def calculateRxChannelsAndUpdateFailsafe_def processDataDrivenRx_def
          processRxChannels_def Let_def loop_def chk_def st2_def isRxDataDriven_def feature_def)
  note L = push_loop [OF p2 l2 order_refl, of readRaw chk, folded loop_def]
  from L e2 show "same_env st' (st\<lparr>rcDataReceived := False\<rparr>)"
    by (simp add: st' same_env_def)
  from L show "rcSamples st' = rcSamples st" and "rcDataMean st' = rcDataMean st"
    and "rxSamplesCollected st' = rxSamplesCollected st"
    by (simp_all add: st' st2_def)
  have vs: "validSample st2 (rawSample st2 readRaw c) = validSample st (rawSample st readRaw c)"
    by (simp add: st2_def validSample_def rawSample_def)
  show "rcData st' ! c = validSample st (rawSample st readRaw c)" if "c < unat (channelCount st)"
    using L that vs by (simp add: st' st2_def)
qed

text \<open>
  C4 (amended). In PUSH mode, on the tick where \<open>updateRx\<close> saw a complete frame, every
  channel \<open>c\<close> below the channel count is published as the driver's raw value at the
  remapped index when that value lies in \<open>[750, 2250]\<close>, and as the mid-stick value
  otherwise; the smoothing state (windows, sums, flag, sample counter) is untouched; the
  frame indication is cleared; and a following tick on which no frame is complete
  publishes nothing new.
\<close>

theorem push_mode_publishes_frame:
  assumes push: "isRxDataDriven st0"
    and frame: "rcDataReceived (updateRx serialRxFrameComplete rxMspFrameComplete st0)"
    and len: "unat (channelCount st0) \<le> length (rcData st0)"
    and c: "c < unat (channelCount st0)"
    and tick: "st1 = calculateRxChannelsAndUpdateFailsafe (Some readRaw) ppm t
                       (updateRx serialRxFrameComplete rxMspFrameComplete st0)"
  shows "rcData st1 ! c
           = (if rawSample st0 readRaw c < PULSE_MIN \<or> PULSE_MAX < rawSample st0 readRaw c
              then midrc (rxConfig st0) else rawSample st0 readRaw c)
     \<and> rcSamples st1 = rcSamples st0 \<and> rcDataMean st1 = rcDataMean st0
     \<and> rxSamplesCollected st1 = rxSamplesCollected st0 \<and> rcSampleIndex st1 = rcSampleIndex st0
     \<and> \<not> rcDataReceived st1
     \<and> rcData (calculateRxChannelsAndUpdateFailsafe readNext ppm' t' (updateRx False False st1))
         = rcData st1"
proof -
  let ?u = "updateRx serialRxFrameComplete rxMspFrameComplete st0"
  have eu: "same_env ?u (st0\<lparr>rcDataReceived := rcDataReceived ?u\<rparr>)"
    by (rule updateRx_env(1))
  then have pu: "isRxDataDriven ?u"
    using push by (simp add: same_env_def isRxDataDriven_def feature_def)
  have lu: "unat (channelCount ?u) \<le> length (rcData ?u)"
    using len eu by (simp add: same_env_def)
  have cu: "c < unat (channelCount ?u)" using c eu by (simp add: same_env_def)
  note T = calculateRx_push_frame [OF pu frame lu tick]
  have vs: "validSample ?u (rawSample ?u readRaw c)
              = (if rawSample st0 readRaw c < PULSE_MIN \<or> PULSE_MAX < rawSample st0 readRaw c
                 then midrc (rxConfig st0) else rawSample st0 readRaw c)"
    using eu by (simp add: validSample_def rawSample_def same_env_def)
  have a: "rcData st1 ! c
           = (if rawSample st0 readRaw c < PULSE_MIN \<or> PULSE_MAX < rawSample st0 readRaw c
              then midrc (rxConfig st0) else rawSample st0 readRaw c)"
    using T(5) [OF cu] vs by simp
  have b: "rcSamples st1 = rcSamples st0" "rcDataMean st1 = rcDataMean st0"
    "rxSamplesCollected st1 = rxSamplesCollected st0"
    using T(2,3,4) by (simp_all add: updateRx_env)
  have d: "rcSampleIndex st1 = rcSampleIndex st0" "\<not> rcDataReceived st1"
    using T(1) eu by (simp_all add: same_env_def)
  have p1: "isRxDataDriven st1"
    using T(1) pu by (simp add: same_env_def isRxDataDriven_def feature_def)
  let ?n = "updateRx False False st1"
  have "same_env ?n (st1\<lparr>rcDataReceived := rcDataReceived ?n\<rparr>)" by (rule updateRx_env(1))
  then have pn: "isRxDataDriven ?n"
    using p1 by (simp add: same_env_def isRxDataDriven_def feature_def)
  have "rcData (calculateRxChannelsAndUpdateFailsafe readNext ppm' t' ?n) = rcData ?n"
    by (simp add: calculateRx_push_no_frame [OF pn updateRx_no_frame])
  then have e: "rcData (calculateRxChannelsAndUpdateFailsafe readNext ppm' t' ?n) = rcData st1"
    by (simp add: updateRx_env)
  from a b d e show ?thesis by simp
qed

lemma example_push_state_ok:
  "isRxDataDriven example_push_state"
  "rcDataReceived (updateRx True False example_push_state)"
  "unat (channelCount example_push_state) \<le> length (rcData example_push_state)"
  "2 < unat (channelCount example_push_state)"
  by (simp_all add: example_push_state_def isRxDataDriven_def feature_def updateRx_def Let_def)

theorem push_mode_publishes_frame_witness:
  "rcData (calculateRxChannelsAndUpdateFailsafe (Some (\<lambda>ch. 1000 + 100 * ucast ch)) False 20000
             (updateRx True False example_push_state)) ! 2 = 1300
   \<and> \<not> rcDataReceived (calculateRxChannelsAndUpdateFailsafe
             (Some (\<lambda>ch. 1000 + 100 * ucast ch)) False 20000
             (updateRx True False example_push_state))"
proof -
  have raw: "rawSample example_push_state (\<lambda>ch. 1000 + 100 * ucast ch) 2 = 1300"
    by (simp add: rawSample_def example_push_state_def calculateChannelRemapping_def)
  from push_mode_publishes_frame [OF example_push_state_ok refl,
         of "\<lambda>ch. 1000 + 100 * ucast ch" False 20000]
  show ?thesis by (simp add: raw PULSE_MIN_def PULSE_MAX_def)
qed

text \<open>
  The published value is not always the raw value: a raw 300 at the remapped index of
  channel 2 is published as the mid-stick value 1500.
\<close>

theorem push_mode_raw_value_counterexample:
  "rawSample example_push_state (\<lambda>_. 300) 2 = 300
   \<and> rcDataReceived (updateRx True False example_push_state)
   \<and> rcData (calculateRxChannelsAndUpdateFailsafe (Some (\<lambda>_. 300)) False 20000
               (updateRx True False example_push_state)) ! 2 = 1500
   \<and> rcData (calculateRxChannelsAndUpdateFailsafe (Some (\<lambda>_. 300)) False 20000
               (updateRx True False example_push_state)) ! 2
       \<noteq> rawSample example_push_state (\<lambda>_. 300) 2"
proof -
  let ?u = "updateRx True False example_push_state"
  have pu: "isRxDataDriven ?u" and lu: "unat (channelCount ?u) \<le> length (rcData ?u)"
    and cu: "2 < unat (channelCount ?u)"
    by (simp_all add: example_push_state_def isRxDataDriven_def feature_def updateRx_def Let_def)
  have raw: "rawSample ?u (\<lambda>_. 300) 2 = 300" "rawSample example_push_state (\<lambda>_. 300) 2 = 300"
    by (simp_all add: rawSample_def)
  have mid: "midrc (rxConfig ?u) = 1500"
    by (simp add: example_push_state_def updateRx_def Let_def feature_def)
  have "rcData (calculateRxChannelsAndUpdateFailsafe (Some (\<lambda>_. 300)) False 20000 ?u) ! 2
          = validSample ?u (rawSample ?u (\<lambda>_. 300) 2)"
    using calculateRx_push_frame(5) [OF pu example_push_state_ok(2) lu refl cu] .
  also have "\<dots> = 1500"
    by (simp add: raw validSample_def mid PULSE_MIN_def PULSE_MAX_def)
  finally show ?thesis using raw(2) example_push_state_ok(2) by simp
qed

subsection \<open>C7, C8: RSSI\<close>

lemmas float32_eval = rescale_def float32_trunc_def float32_mul_def float32_div_def
  float32_of_nat_def round_ratio_def round_nearest_even_def Let_def bitlen.simps

lemma float32_consts:
  "float32_of_nat 1000 = \<lparr>mant = 1000, expo = 0\<rparr>"
  "float32_of_nat 1023 = \<lparr>mant = 1023, expo = 0\<rparr>"
  "float32_of_nat 100 = \<lparr>mant = 100, expo = 0\<rparr>"
  "RSSI_SCALE = \<lparr>mant = 10734797, expo = -18\<rparr>"
  by (simp_all add: RSSI_SCALE_def float32_eval)

lemma rescale_ok_rangeD:
  "rescale_ok_range lo n \<Longrightarrow> lo \<le> c \<Longrightarrow> c < lo + n \<Longrightarrow> rescale_ok c"
proof (induction n)
  case 0
  then show ?case by simp
next
  case (Suc n)
  from Suc.prems(1) have here: "rescale_ok (lo + n)" and rest: "rescale_ok_range lo n"
    by (simp_all add: rescale_ok_range.simps [of lo "Suc n"])
  show ?case
  proof (cases "c = lo + n")
    case True
    with here show ?thesis by simp
  next
    case False
    with Suc.prems have "c < lo + n" by simp
    with Suc.IH rest Suc.prems(2) show ?thesis by simp
  qed
qed

lemma rescale_ok_chunk0: "rescale_ok_range 0 126"
  by (simp add: rescale_ok_range.simps rescale_ok_def float32_consts float32_eval)

lemma rescale_ok_chunk1: "rescale_ok_range 126 125"
  by (simp add: rescale_ok_range.simps rescale_ok_def float32_consts float32_eval)

lemma rescale_ok_chunk2: "rescale_ok_range 251 125"
  by (simp add: rescale_ok_range.simps rescale_ok_def float32_consts float32_eval)

lemma rescale_ok_chunk3: "rescale_ok_range 376 125"
  by (simp add: rescale_ok_range.simps rescale_ok_def float32_consts float32_eval)

lemma rescale_ok_chunk4: "rescale_ok_range 501 125"
  by (simp add: rescale_ok_range.simps rescale_ok_def float32_consts float32_eval)

lemma rescale_ok_chunk5: "rescale_ok_range 626 125"
  by (simp add: rescale_ok_range.simps rescale_ok_def float32_consts float32_eval)

lemma rescale_ok_chunk6: "rescale_ok_range 751 125"
  by (simp add: rescale_ok_range.simps rescale_ok_def float32_consts float32_eval)

lemma rescale_ok_chunk7: "rescale_ok_range 876 125"
  by (simp add: rescale_ok_range.simps rescale_ok_def float32_consts float32_eval)

lemma rescale_exact:
  assumes "c \<le> 1000"
  shows "rescale c 1000 = c * 1023 div 1000"
proof -
  from assms consider "c < 126" | "126 \<le> c \<and> c < 251" | "251 \<le> c \<and> c < 376"
    | "376 \<le> c \<and> c < 501" | "501 \<le> c \<and> c < 626" | "626 \<le> c \<and> c < 751"
    | "751 \<le> c \<and> c < 876" | "876 \<le> c \<and> c < 1001"
    by linarith
  then have "rescale_ok c"
  proof cases
    case 1 then show ?thesis by (intro rescale_ok_rangeD [OF rescale_ok_chunk0]) simp_all
  next
    case 2 then show ?thesis by (intro rescale_ok_rangeD [OF rescale_ok_chunk1]) simp_all
  next
    case 3 then show ?thesis by (intro rescale_ok_rangeD [OF rescale_ok_chunk2]) simp_all
  next
    case 4 then show ?thesis by (intro rescale_ok_rangeD [OF rescale_ok_chunk3]) simp_all
  next
    case 5 then show ?thesis by (intro rescale_ok_rangeD [OF rescale_ok_chunk4]) simp_all
  next
    case 6 then show ?thesis by (intro rescale_ok_rangeD [OF rescale_ok_chunk5]) simp_all
  next
    case 7 then show ?thesis by (intro rescale_ok_rangeD [OF rescale_ok_chunk6]) simp_all
  next
    case 8 then show ?thesis by (intro rescale_ok_rangeD [OF rescale_ok_chunk7]) simp_all
  qed
  then show ?thesis by (simp add: rescale_ok_def)
qed

text \<open>
  C7. When a dedicated RSSI channel is configured (\<open>rssi_channel > 0\<close>), \<open>updateRSSI\<close>
  sets \<open>rssi\<close> from that channel's published value \<open>v\<close> to the clamped
  \<open>constrain (v - 1000) 0 1000\<close> times 1023 divided by 1000, rounded down: the
  single-precision computation of the code gives exactly this integer. In particular
  \<open>v = 1500\<close> gives 511, every \<open>v \<le> 1000\<close> gives 0 and every \<open>v \<ge> 2000\<close> gives 1023.
\<close>

theorem updateRSSI_from_channel:
  assumes "0 < rssi_channel (rxConfig st)"
  shows "(let v = sint (rcData st ! (unat (rssi_channel (rxConfig st)) - 1));
              st' = updateRSSI adcRssiSample currentTime st
          in unat (rssi st') = nat (constrain (v - 1000) 0 1000) * 1023 div 1000
           \<and> (v = 1500 \<longrightarrow> rssi st' = 511)
           \<and> (v \<le> 1000 \<longrightarrow> rssi st' = 0)
           \<and> (2000 \<le> v \<longrightarrow> rssi st' = 1023))"
proof -
  define v where "v = sint (rcData st ! (unat (rssi_channel (rxConfig st)) - 1))"
  define c where "c = nat (constrain (v - 1000) 0 1000)"
  have c: "c \<le> 1000" by (auto simp: c_def constrain_def)
  have r: "rssi (updateRSSI adcRssiSample currentTime st) = of_nat (c * 1023 div 1000)"
    using assms rescale_exact [OF c]
    by (simp add: updateRSSI_def updateRSSIPWM_def Let_def c_def v_def)
  have "c * 1023 div 1000 \<le> 1023" using c by simp
  then have u: "unat (rssi (updateRSSI adcRssiSample currentTime st)) = c * 1023 div 1000"
    unfolding r by (simp add: unat_of_nat)
  have "c = 500" if "v = 1500" using that by (simp add: c_def constrain_def)
  then have a: "v = 1500 \<longrightarrow> rssi (updateRSSI adcRssiSample currentTime st) = 511"
    unfolding r by simp
  have "c = 0" if "v \<le> 1000" using that by (simp add: c_def constrain_def)
  then have b: "v \<le> 1000 \<longrightarrow> rssi (updateRSSI adcRssiSample currentTime st) = 0"
    unfolding r by simp
  have "c = 1000" if "2000 \<le> v" using that by (simp add: c_def constrain_def)
  then have d: "2000 \<le> v \<longrightarrow> rssi (updateRSSI adcRssiSample currentTime st) = 1023"
    unfolding r by simp
  from u a b d show ?thesis
    unfolding Let_def v_def [symmetric] c_def [symmetric] by simp
qed

theorem updateRSSI_from_channel_witness:
  "rssi (updateRSSI 0 0 example_rssi_state) = 511
   \<and> rssi (updateRSSI 0 0 (example_rssi_state\<lparr>rcData := [1500, 1500, 1000, 990]\<rparr>)) = 0
   \<and> rssi (updateRSSI 0 0 (example_rssi_state\<lparr>rcData := [1500, 1500, 1000, 2011]\<rparr>)) = 1023"
proof -
  have "0 < rssi_channel (rxConfig example_rssi_state)"
    and "0 < rssi_channel (rxConfig (example_rssi_state\<lparr>rcData := [1500, 1500, 1000, 990]\<rparr>))"
    and "0 < rssi_channel (rxConfig (example_rssi_state\<lparr>rcData := [1500, 1500, 1000, 2011]\<rparr>))"
    by (simp_all add: example_rssi_state_def)
  from this [THEN updateRSSI_from_channel, of 0 0]
  show ?thesis
    by (simp add: Let_def example_rssi_state_def)
qed

lemma every_slot:
  assumes "k < 16"
  shows "\<exists>j<16. (i + 1 + j) mod 16 = (k::nat)"
proof -
  define r where "r = (i + 1) mod 16"
  have r: "r < 16" by (simp add: r_def)
  have split: "(i + 1 + j) mod 16 = (r + j) mod 16" for j
    unfolding r_def by (simp add: mod_add_left_eq)
  show ?thesis
  proof (cases "r \<le> k")
    case True
    then have "(r + (k - r)) mod 16 = k" using assms by simp
    moreover have "k - r < 16" using assms by simp
    ultimately show ?thesis unfolding split [symmetric] by blast
  next
    case False
    then have "r + (k + 16 - r) = k + 16" using r by simp
    then have "(r + (k + 16 - r)) mod 16 = k" using assms by simp
    moreover have "k + 16 - r < 16" using False by simp
    ultimately show ?thesis unfolding split [symmetric] by blast
  qed
qed

lemma next_slot: "((i + 1) mod 16 + 1 + j') mod 16 = (i + 1 + Suc j') mod (16::nat)"
proof -
  have "((i + 1) mod 16 + (1 + j')) mod 16 = (i + 1 + (1 + j')) mod 16"
    by (rule mod_add_left_eq)
  then show ?thesis by simp
qed

lemma updateRSSIADC_accepted:
  assumes "0 \<le> sint (currentTime - rssiUpdateAt st)"
  shows "adcRssiSamples (updateRSSIADC a currentTime st)
           = (adcRssiSamples st)[(unat (adcRssiSampleIndex st) + 1) mod 16 := rssiPercentage a]"
    and "unat (adcRssiSampleIndex (updateRSSIADC a currentTime st))
           = (unat (adcRssiSampleIndex st) + 1) mod 16"
    and "rssi (updateRSSIADC a currentTime st)
           = adcRssi (adcRssiSamples (updateRSSIADC a currentTime st))"
    and "rssiUpdateAt (updateRSSIADC a currentTime st) = currentTime + DELAY_50_HZ"
proof -
  have lt: "(unat (adcRssiSampleIndex st) + 1) mod 16 < 256"
    by (rule less_trans [of _ 16]) simp_all
  have u: "unat (of_nat ((unat (adcRssiSampleIndex st) + 1) mod 16) :: 8 word)
             = (unat (adcRssiSampleIndex st) + 1) mod 16"
    using lt by (simp only: unat_of_nat8)
  from assms have acc: "\<not> sint (currentTime - rssiUpdateAt st) < 0" by simp
  show "adcRssiSamples (updateRSSIADC a currentTime st)
           = (adcRssiSamples st)[(unat (adcRssiSampleIndex st) + 1) mod 16 := rssiPercentage a]"
    and "unat (adcRssiSampleIndex (updateRSSIADC a currentTime st))
           = (unat (adcRssiSampleIndex st) + 1) mod 16"
    and "rssiUpdateAt (updateRSSIADC a currentTime st) = currentTime + DELAY_50_HZ"
    using acc u by (simp_all add: updateRSSIADC_def Let_def RSSI_ADC_SAMPLE_COUNT_def)
  show "rssi (updateRSSIADC a currentTime st)
           = adcRssi (adcRssiSamples (updateRSSIADC a currentTime st))"
    using acc by (simp add: updateRSSIADC_def Let_def adcRssi_def)
qed

lemma updateRSSIADC_length:
  "length (adcRssiSamples (updateRSSIADC a currentTime st)) = length (adcRssiSamples st)"
  by (simp add: updateRSSIADC_def Let_def)

lemma list_update_same: "xs ! k = v \<Longrightarrow> xs[i := v] ! k = v"
  by (cases "i < length xs") (simp_all add: nth_list_update list_update_beyond)

lemma updateRSSIADC_keeps:
  assumes "adcRssiSamples st ! k = rssiPercentage a"
  shows "adcRssiSamples (updateRSSIADC a currentTime st) ! k = rssiPercentage a"
  using assms by (simp add: updateRSSIADC_def Let_def list_update_same)

lemma run_length:
  "length (adcRssiSamples (updateRSSIADC_run us st)) = length (adcRssiSamples st)"
  by (induction us st rule: updateRSSIADC_run.induct) (simp_all add: updateRSSIADC_length)

lemma run_keeps:
  assumes "\<forall>(a, t) \<in> set us. rssiPercentage a = p" and "adcRssiSamples st ! k = p"
    and "k < length (adcRssiSamples st)"
  shows "adcRssiSamples (updateRSSIADC_run us st) ! k = p"
  using assms
proof (induction us st rule: updateRSSIADC_run.induct)
  case (1 st)
  then show ?case by simp
next
  case (2 a t us st)
  from "2.prems" have p: "rssiPercentage a = p" by simp
  have "adcRssiSamples (updateRSSIADC a t st) ! k = p"
    using updateRSSIADC_keeps [of st k a t] "2.prems"(2) p by simp
  moreover have "k < length (adcRssiSamples (updateRSSIADC a t st))"
    using "2.prems"(3) by (simp add: updateRSSIADC_length)
  ultimately show ?case using "2.IH" "2.prems"(1) by simp
qed

lemma run_written:
  assumes "all_accepted us st" and "\<forall>(a, t) \<in> set us. rssiPercentage a = p"
    and "length (adcRssiSamples st) = 16" and "j < length us"
  shows "adcRssiSamples (updateRSSIADC_run us st) ! ((unat (adcRssiSampleIndex st) + 1 + j) mod 16)
           = p"
  using assms
proof (induction us st arbitrary: j rule: updateRSSIADC_run.induct)
  case (1 st)
  then show ?case by simp
next
  case (2 a t us st)
  let ?st1 = "updateRSSIADC a t st"
  from "2.prems"(1) have acc: "0 \<le> sint (t - rssiUpdateAt st)" and rest: "all_accepted us ?st1"
    by simp_all
  from "2.prems"(2) have p: "rssiPercentage a = p"
    and ps: "\<forall>(a, t) \<in> set us. rssiPercentage a = p" by simp_all
  note U = updateRSSIADC_accepted [OF acc, of a]
  have len1: "length (adcRssiSamples ?st1) = 16"
    using "2.prems"(3) by (simp add: updateRSSIADC_length)
  show ?case
  proof (cases j)
    case 0
    have "adcRssiSamples ?st1 ! ((unat (adcRssiSampleIndex st) + 1) mod 16) = p"
      unfolding U(1) using "2.prems"(3) p by simp
    then have "adcRssiSamples (updateRSSIADC_run us ?st1)
                 ! ((unat (adcRssiSampleIndex st) + 1) mod 16) = p"
      using ps len1 by (intro run_keeps) simp_all
    with 0 show ?thesis by simp
  next
    case (Suc j')
    with "2.prems"(4) have "j' < length us" by simp
    from "2.IH" [OF rest ps len1 this]
    have "adcRssiSamples (updateRSSIADC_run us ?st1)
            ! (((unat (adcRssiSampleIndex st) + 1) mod 16 + 1 + j') mod 16) = p"
      unfolding U(2) .
    moreover have "((unat (adcRssiSampleIndex st) + 1) mod 16 + 1 + j') mod 16
                     = (unat (adcRssiSampleIndex st) + 1 + Suc j') mod 16"
      by (rule next_slot)
    ultimately show ?thesis using Suc by simp
  qed
qed

lemma run_rssi:
  assumes "us \<noteq> []" and "all_accepted us st"
  shows "rssi (updateRSSIADC_run us st) = adcRssi (adcRssiSamples (updateRSSIADC_run us st))"
  using assms
proof (induction us st rule: updateRSSIADC_run.induct)
  case (1 st)
  then show ?case by simp
next
  case (2 a t us st)
  from "2.prems"(2) have acc: "0 \<le> sint (t - rssiUpdateAt st)"
    and rest: "all_accepted us (updateRSSIADC a t st)" by simp_all
  show ?case
  proof (cases "us = []")
    case True
    then show ?thesis using updateRSSIADC_accepted(3) [OF acc, of a] by simp
  next
    case False
    from "2.IH" [OF False rest] show ?thesis by simp
  qed
qed

lemma adcRssi_50: "adcRssi (replicate 16 50) = 511"
proof -
  have "adcRssiMean (replicate 16 50) = 50"
    by (simp add: adcRssiMean_def RSSI_ADC_SAMPLE_COUNT_def upt_rec signed_divide_int_def)
  then show ?thesis
    by (simp add: adcRssi_def constrain_def float32_consts float32_eval)
qed

text \<open>
  C8. From any state of the 16-slot window, after exactly 16 accepted ADC updates whose
  converted percentage is 50 the published RSSI is 511. This holds for every such
  sequence of updates, so it does not depend on the order in which the samples arrived.
\<close>

theorem updateRSSIADC_constant_percentage:
  assumes len: "length (adcRssiSamples st) = RSSI_ADC_SAMPLE_COUNT"
    and n: "length us = RSSI_ADC_SAMPLE_COUNT"
    and acc: "all_accepted us st"
    and p: "\<forall>(adcRssiSample, currentTime) \<in> set us. rssiPercentage adcRssiSample = 50"
  shows "rssi (updateRSSIADC_run us st) = 511"
proof -
  let ?w = "adcRssiSamples (updateRSSIADC_run us st)"
  have l16: "length (adcRssiSamples st) = 16" "length us = 16"
    using len n by (simp_all add: RSSI_ADC_SAMPLE_COUNT_def)
  have lw: "length ?w = 16" using l16 by (simp add: run_length)
  have "?w ! k = 50" if "k < 16" for k
  proof -
    from every_slot [OF that, of "unat (adcRssiSampleIndex st)"]
    obtain j where j: "j < 16" "(unat (adcRssiSampleIndex st) + 1 + j) mod 16 = k" by blast
    from run_written [OF acc p l16(1), of j] j l16(2) show ?thesis by simp
  qed
  then have "?w = replicate 16 50"
    using lw by (intro nth_equalityI) simp_all
  moreover have "us \<noteq> []" using l16(2) by auto
  ultimately show ?thesis using run_rssi [OF _ acc] adcRssi_50 by simp
qed

lemma updateRSSIADC_rssiUpdateAt:
  "rssiUpdateAt (updateRSSIADC a t st)
     = (if sint (t - rssiUpdateAt st) < 0 then rssiUpdateAt st else t + DELAY_50_HZ)"
  by (simp add: updateRSSIADC_def Let_def)

lemma rssiPercentage_examples: "rssiPercentage 2048 = 50" "rssiPercentage 2060 = 50"
  by (simp_all add: rssiPercentage_def float32_consts float32_eval)

theorem updateRSSIADC_constant_percentage_witness:
  "rssi (updateRSSIADC_run example_adc_updates example_push_state) = 511"
proof -
  have len: "length (adcRssiSamples example_push_state) = RSSI_ADC_SAMPLE_COUNT"
    and n: "length example_adc_updates = RSSI_ADC_SAMPLE_COUNT"
    by (simp_all add: example_push_state_def example_adc_updates_def RSSI_ADC_SAMPLE_COUNT_def)
  have start: "rssiUpdateAt example_push_state = 0" by (simp add: example_push_state_def)
  have acc: "all_accepted example_adc_updates example_push_state"
    by (simp add: example_adc_updates_def updateRSSIADC_rssiUpdateAt start DELAY_50_HZ_def)
  have p: "\<forall>(adcRssiSample, currentTime) \<in> set example_adc_updates.
             rssiPercentage adcRssiSample = 50"
    by (simp add: example_adc_updates_def rssiPercentage_examples)
  from updateRSSIADC_constant_percentage [OF len n acc p] show ?thesis .
qed

subsection \<open>C1: the dispatcher calls the callback registered for the pair\<close>

lemma lookupTimerIndex_loop_found:
  assumes "k < 256" and "i \<le> k" and "\<forall>j. i \<le> j \<and> j < k \<longrightarrow> tbl j \<noteq> tbl k"
  shows "lookupTimerIndex_loop tbl (tbl k) (of_nat i) = Some (of_nat k)"
  using assms
proof (induction "k - i" arbitrary: i)
  case 0
  then have "i = k" by simp
  with \<open>k < 256\<close> show ?case
    by (subst lookupTimerIndex_loop.simps) (simp add: unat_of_nat)
next
  case (Suc d)
  then have lt: "i < k" and ne: "tbl i \<noteq> tbl k" by auto
  have ui: "unat (of_nat i :: 8 word) = i" using lt \<open>k < 256\<close> by (simp add: unat_of_nat)
  have "lookupTimerIndex_loop tbl (tbl k) (of_nat (Suc i)) = Some (of_nat k)"
    using Suc by (intro Suc.hyps(1)) auto
  then have "lookupTimerIndex_loop tbl (tbl k) (of_nat i + 1) = Some (of_nat k)"
    by (simp add: add.commute)
  then show ?case
    by (subst lookupTimerIndex_loop.simps) (simp add: ui ne)
qed

lemma lookupChannelIndex_loop_found:
  assumes "k < 256" and "i \<le> k" and "\<forall>j. i \<le> j \<and> j < k \<longrightarrow> tbl j \<noteq> tbl k"
  shows "lookupChannelIndex_loop tbl (tbl k) (of_nat i) = Some (of_nat k)"
  using assms
proof (induction "k - i" arbitrary: i)
  case 0
  then have "i = k" by simp
  with \<open>k < 256\<close> show ?case
    by (subst lookupChannelIndex_loop.simps) (simp add: unat_of_nat)
next
  case (Suc d)
  then have lt: "i < k" and ne: "tbl i \<noteq> tbl k" by auto
  have ui: "unat (of_nat i :: 8 word) = i" using lt \<open>k < 256\<close> by (simp add: unat_of_nat)
  have "lookupChannelIndex_loop tbl (tbl k) (of_nat (Suc i)) = Some (of_nat k)"
    using Suc by (intro Suc.hyps(1)) auto
  then have "lookupChannelIndex_loop tbl (tbl k) (of_nat i + 1) = Some (of_nat k)"
    by (simp add: add.commute)
  then show ?case
    by (subst lookupChannelIndex_loop.simps) (simp add: ui ne)
qed

lemma distinct_map_upt_neq:
  assumes "distinct (map f [0..<n])" and "j < k" and "k < n"
  shows "f j \<noteq> f k"
proof -
  have inj: "inj_on f {0..<n}" using assms(1) by (simp add: distinct_map)
  have "j \<in> {0..<n}" and "k \<in> {0..<n}" using assms(2,3) by simp_all
  with inj have "(f j = f k) = (j = k)" by (rule inj_on_eq_iff)
  with assms(2) show ?thesis by simp
qed

lemma lookupTimerIndex_valid:
  assumes "tables_ok p" and "ti < MAX_TIMERS p"
  shows "lookupTimerIndex p (timers p ti) = Some (of_nat ti)"
proof -
  have "MAX_TIMERS p \<le> 256" using assms(1) by (simp add: tables_ok_def CC_CHANNELS_PER_TIMER_def)
  then have "ti < 256" using assms(2) by simp
  moreover have "\<forall>j. 0 \<le> j \<and> j < ti \<longrightarrow> timers p j \<noteq> timers p ti"
    using assms by (auto simp: tables_ok_def dest: distinct_map_upt_neq)
  ultimately have "lookupTimerIndex_loop (timers p) (timers p ti) (of_nat 0) = Some (of_nat ti)"
    by (intro lookupTimerIndex_loop_found) simp_all
  then show ?thesis by (simp add: lookupTimerIndex_def)
qed

lemma lookupChannelIndex_valid:
  assumes "tables_ok p" and "ci < CC_CHANNELS_PER_TIMER"
  shows "lookupChannelIndex p (channels p ci) = Some (of_nat ci)"
proof -
  have "ci < 256" using assms(2) by (simp add: CC_CHANNELS_PER_TIMER_def)
  moreover have "\<forall>j. 0 \<le> j \<and> j < ci \<longrightarrow> channels p j \<noteq> channels p ci"
    using assms by (auto simp: tables_ok_def dest: distinct_map_upt_neq)
  ultimately have "lookupChannelIndex_loop (channels p) (channels p ci) (of_nat 0) = Some (of_nat ci)"
    by (intro lookupChannelIndex_loop_found) simp_all
  then show ?thesis by (simp add: lookupChannelIndex_def)
qed

lemma slot_bound:
  assumes "ti < (m::nat)" and "ci < 4"
  shows "ti + m * ci < m * 4"
proof -
  have "ci \<le> 3" using assms(2) by simp
  then have "m * ci \<le> m * 3" by (rule mult_le_mono2)
  with assms(1) show ?thesis by linarith
qed

lemma slot_inj:
  assumes "ti < (m::nat)" and "ti' < m" and "ti + m * ci = ti' + m * ci'"
  shows "ti = ti' \<and> ci = ci'"
proof -
  have "(ti + m * ci) mod m = ti" and "(ti' + m * ci') mod m = ti'"
    using assms(1,2) by simp_all
  with assms(3) have t: "ti = ti'" by simp
  with assms have "m * ci = m * ci'" and "0 < m" by simp_all
  then have "ci = ci'" by simp
  with t show ?thesis by simp
qed

lemma lookupTimerConfigIndex_valid:
  assumes "tables_ok p" and "ti < MAX_TIMERS p" and "ci < CC_CHANNELS_PER_TIMER"
  shows "lookupTimerConfigIndex p (timers p ti) (channels p ci)
           = Some (of_nat (ti + MAX_TIMERS p * ci))"
    and "unat (of_nat (ti + MAX_TIMERS p * ci) :: 8 word) = ti + MAX_TIMERS p * ci"
proof -
  have b: "ti + MAX_TIMERS p * ci < MAX_TIMERS p * 4"
    using assms(2,3) by (intro slot_bound) (simp_all add: CC_CHANNELS_PER_TIMER_def)
  have "MAX_TIMERS p * 4 \<le> 256" using assms(1) by (simp add: tables_ok_def CC_CHANNELS_PER_TIMER_def)
  with b have lt: "ti + MAX_TIMERS p * ci < 256" by simp
  then show "unat (of_nat (ti + MAX_TIMERS p * ci) :: 8 word) = ti + MAX_TIMERS p * ci"
    by (rule unat_of_nat8)
  have "ti < 256" and "ci < 256" using lt assms(3) by (simp_all add: CC_CHANNELS_PER_TIMER_def)
  then have "unat (of_nat ti :: 8 word) = ti" and "unat (of_nat ci :: 8 word) = ci"
    by (simp_all add: unat_of_nat)
  then show "lookupTimerConfigIndex p (timers p ti) (channels p ci)
           = Some (of_nat (ti + MAX_TIMERS p * ci))"
    using assms by (simp add: lookupTimerConfigIndex_def lookupTimerIndex_valid lookupChannelIndex_valid)
qed


lemma channels_distinct:
  assumes "tables_ok p" and "a < CC_CHANNELS_PER_TIMER" and "b < CC_CHANNELS_PER_TIMER" and "a \<noteq> b"
  shows "channels p a \<noteq> channels p b"
proof -
  have inj: "inj_on (channels p) {0..<CC_CHANNELS_PER_TIMER}"
    using assms(1) by (simp add: tables_ok_def distinct_map)
  have "a \<in> {0..<CC_CHANNELS_PER_TIMER}" and "b \<in> {0..<CC_CHANNELS_PER_TIMER}"
    using assms(2,3) by simp_all
  with inj have "(channels p a = channels p b) = (a = b)" by (rule inj_on_eq_iff)
  with assms(4) show ?thesis by simp
qed

lemma channels_fit_uint8:
  assumes "tables_ok p" and "a < CC_CHANNELS_PER_TIMER"
  shows "ucast (ucast (channels p a) :: 8 word) = channels p a"
proof -
  have "unat (channels p a) < 256"
    using assms by (simp add: tables_ok_def list_all_iff)
  then have "unat (ucast (ucast (channels p a) :: 8 word) :: 16 word) = unat (channels p a)"
    by (simp add: unsigned_ucast_eq unsigned_take_bit_eq take_bit_nat_eq_self)
  then show ?thesis by (simp only: word_unat_eq_iff)
qed

lemma findTimerConfig_valid:
  assumes "tables_ok p" and "ti < MAX_TIMERS p" and "ci < CC_CHANNELS_PER_TIMER"
  shows "findTimerConfig p cfgs (timers p ti) (channels p ci)
           = Some (cfgs ! (ti + MAX_TIMERS p * ci))"
  using lookupTimerConfigIndex_valid [OF assms] by (simp add: findTimerConfig_def)

lemma configureTimerChannelCallbacks_valid:
  assumes "tables_ok p" and "ti < MAX_TIMERS p" and "ci < CC_CHANNELS_PER_TIMER"
    and "ucast chan = channels p ci"
  shows "configureTimerChannelCallbacks p (timers p ti) chan refr edgeCb overflowCb cfgs
           = Some (cfgs[ti + MAX_TIMERS p * ci :=
                (cfgs ! (ti + MAX_TIMERS p * ci))
                  \<lparr>channel := chan, edgeCallback := edgeCb,
                   overflowCallback := overflowCb, reference := refr\<rparr>])"
proof -
  have "ti + MAX_TIMERS p * ci < MAX_TIMERS p * 4"
    using assms(2,3) by (intro slot_bound) (simp_all add: CC_CHANNELS_PER_TIMER_def)
  then have "\<not> MAX_TIMERS p * CC_CHANNELS_PER_TIMER \<le> ti + MAX_TIMERS p * ci"
    by (simp add: CC_CHANNELS_PER_TIMER_def)
  then show ?thesis
    using lookupTimerConfigIndex_valid [OF assms(1,2,3)] assms(4)
    by (simp add: configureTimerChannelCallbacks_def)
qed

lemma configureSequence_other_slots:
  assumes "tables_ok p" and "ti < MAX_TIMERS p" and "ci < CC_CHANNELS_PER_TIMER"
    and "\<forall>(timx', chan', rest) \<in> set regs.
           \<exists>ti' ci'. ti' < MAX_TIMERS p \<and> ci' < CC_CHANNELS_PER_TIMER
             \<and> timx' = timers p ti' \<and> ucast chan' = channels p ci' \<and> (ti', ci') \<noteq> (ti, ci)"
  shows "\<exists>cfgs'. configureSequence p regs cfgs = Some cfgs'
           \<and> length cfgs' = length cfgs
           \<and> cfgs' ! (ti + MAX_TIMERS p * ci) = cfgs ! (ti + MAX_TIMERS p * ci)"
  using assms(4)
proof (induction regs arbitrary: cfgs)
  case Nil
  show ?case by (simp add: configureSequence_def)
next
  case (Cons r regs)
  obtain timx' chan' refr' e' o' where r: "r = (timx', chan', refr', e', o')"
    by (cases r) auto
  from Cons.prems r obtain ti' ci' where v: "ti' < MAX_TIMERS p" "ci' < CC_CHANNELS_PER_TIMER"
      "timx' = timers p ti'" "ucast chan' = channels p ci'" "(ti', ci') \<noteq> (ti, ci)"
    by auto
  let ?k' = "ti' + MAX_TIMERS p * ci'"
  let ?k = "ti + MAX_TIMERS p * ci"
  let ?cfgs1 = "cfgs[?k' := (cfgs ! ?k')\<lparr>channel := chan', edgeCallback := e',
                   overflowCallback := o', reference := refr'\<rparr>]"
  have step: "configureTimerChannelCallbacks p timx' chan' refr' e' o' cfgs = Some ?cfgs1"
    using configureTimerChannelCallbacks_valid [OF assms(1) v(1,2,4)] v(3) by simp
  have ne: "?k' \<noteq> ?k"
    using slot_inj [OF v(1) assms(2), of ci' ci] v(5) by auto
  from Cons.prems have "\<forall>(timx', chan', rest) \<in> set regs.
           \<exists>ti' ci'. ti' < MAX_TIMERS p \<and> ci' < CC_CHANNELS_PER_TIMER
             \<and> timx' = timers p ti' \<and> ucast chan' = channels p ci' \<and> (ti', ci') \<noteq> (ti, ci)"
    by simp
  from Cons.IH [OF this, of ?cfgs1] obtain cfgs' where
    rest: "configureSequence p regs ?cfgs1 = Some cfgs'" "length cfgs' = length ?cfgs1"
      "cfgs' ! ?k = ?cfgs1 ! ?k"
    by blast
  have "configureSequence p (r # regs) cfgs = Some cfgs'"
    using step rest(1) by (simp add: configureSequence_def r)
  moreover have "length cfgs' = length cfgs" using rest(2) by simp
  moreover have "cfgs' ! ?k = cfgs ! ?k" using rest(3) ne by simp
  ultimately show ?case by blast
qed

lemma edge_step_idle:
  assumes "\<not> IT_CC hw cj" and "cj < CC_CHANNELS_PER_TIMER" and "tables_ok p"
  shows "edge_step p cfgs timx (hw, calls) cj = Some (hw, calls)"
proof -
  have d: "\<And>a. a < CC_CHANNELS_PER_TIMER \<Longrightarrow> a \<noteq> cj \<Longrightarrow> channels p cj \<noteq> channels p a"
    using assms(2,3) by (intro channels_distinct) simp_all
  note u = channels_fit_uint8 [OF assms(3,2)]
  from assms(2) have "cj = 0 \<or> cj = 1 \<or> cj = 2 \<or> cj = 3"
    unfolding CC_CHANNELS_PER_TIMER_def by arith
  then consider "cj = 0" | "cj = 1" | "cj = 2" | "cj = 3"
    by blast
  then show ?thesis
  proof cases
    case 1
    then show ?thesis
      using assms(1) u d [of 1] d [of 2] d [of 3]
      by (simp add: edge_step_def TIM_Channel_1_def TIM_Channel_2_def TIM_Channel_3_def
            TIM_Channel_4_def CC_CHANNELS_PER_TIMER_def)
  next
    case 2
    then show ?thesis
      using assms(1) u d [of 0] d [of 2] d [of 3]
      by (simp add: edge_step_def TIM_Channel_1_def TIM_Channel_2_def TIM_Channel_3_def
            TIM_Channel_4_def CC_CHANNELS_PER_TIMER_def)
  next
    case 3
    then show ?thesis
      using assms(1) u d [of 0] d [of 1] d [of 3]
      by (simp add: edge_step_def TIM_Channel_1_def TIM_Channel_2_def TIM_Channel_3_def
            TIM_Channel_4_def CC_CHANNELS_PER_TIMER_def)
  next
    case 4
    then show ?thesis
      using assms(1) u d [of 0] d [of 1] d [of 2]
      by (simp add: edge_step_def TIM_Channel_1_def TIM_Channel_2_def TIM_Channel_3_def
            TIM_Channel_4_def CC_CHANNELS_PER_TIMER_def)
  qed
qed

lemma edge_step_pending:
  assumes "IT_CC hw ci" and "ci < CC_CHANNELS_PER_TIMER" and "tables_ok p"
  shows "edge_step p cfgs timx (hw, calls) ci
           = invoke_edge (findTimerConfig p cfgs timx (channels p ci)) (CCR hw ci)
               (hw\<lparr>IT_CC := (IT_CC hw)(ci := False)\<rparr>) calls"
proof -
  have d: "\<And>a. a < CC_CHANNELS_PER_TIMER \<Longrightarrow> a \<noteq> ci \<Longrightarrow> channels p ci \<noteq> channels p a"
    using assms(2,3) by (intro channels_distinct) simp_all
  note u = channels_fit_uint8 [OF assms(3,2)]
  from assms(2) have "ci = 0 \<or> ci = 1 \<or> ci = 2 \<or> ci = 3"
    unfolding CC_CHANNELS_PER_TIMER_def by arith
  then consider "ci = 0" | "ci = 1" | "ci = 2" | "ci = 3"
    by blast
  then show ?thesis
  proof cases
    case 1
    then show ?thesis
      using assms(1) u by (simp add: edge_step_def TIM_Channel_1_def)
  next
    case 2
    then show ?thesis
      using assms(1) u d [of 0]
      by (simp add: edge_step_def TIM_Channel_1_def TIM_Channel_2_def CC_CHANNELS_PER_TIMER_def)
  next
    case 3
    then show ?thesis
      using assms(1) u d [of 0] d [of 1]
      by (simp add: edge_step_def TIM_Channel_1_def TIM_Channel_2_def TIM_Channel_3_def
            CC_CHANNELS_PER_TIMER_def)
  next
    case 4
    then show ?thesis
      using assms(1) u d [of 0] d [of 1] d [of 2]
      by (simp add: edge_step_def TIM_Channel_1_def TIM_Channel_2_def TIM_Channel_3_def
            TIM_Channel_4_def CC_CHANNELS_PER_TIMER_def)
  qed
qed


lemma fold_option_append:
  "fold_option f (xs @ ys) s
     = (case fold_option f xs s of None \<Rightarrow> None | Some s' \<Rightarrow> fold_option f ys s')"
  by (induction xs arbitrary: s) (simp_all split: option.splits)

lemma edge_loop_idle:
  assumes "tables_ok p" and "\<forall>cj \<in> set xs. cj < CC_CHANNELS_PER_TIMER \<and> \<not> IT_CC hw cj"
  shows "fold_option (edge_step p cfgs timx) xs (hw, calls) = Some (hw, calls)"
  using assms(2)
proof (induction xs)
  case Nil
  show ?case by simp
next
  case (Cons x xs)
  then have "edge_step p cfgs timx (hw, calls) x = Some (hw, calls)"
    using assms(1) by (intro edge_step_idle) simp_all
  with Cons show ?case by simp
qed

lemma edge_loop_single:
  assumes ok: "tables_ok p" and ci: "ci < CC_CHANNELS_PER_TIMER"
    and others: "\<forall>cj < CC_CHANNELS_PER_TIMER. cj \<noteq> ci \<longrightarrow> \<not> IT_CC hw cj"
    and step: "edge_step p cfgs timx (hw, calls) ci = Some (hw\<lparr>IT_CC := (IT_CC hw)(ci := False)\<rparr>, calls')"
  shows "fold_option (edge_step p cfgs timx) [0..<CC_CHANNELS_PER_TIMER] (hw, calls)
           = Some (hw\<lparr>IT_CC := (IT_CC hw)(ci := False)\<rparr>, calls')"
proof -
  let ?hw' = "hw\<lparr>IT_CC := (IT_CC hw)(ci := False)\<rparr>"
  have split: "[0..<CC_CHANNELS_PER_TIMER] = [0..<ci] @ [ci] @ [Suc ci..<CC_CHANNELS_PER_TIMER]"
    using ci by (metis append_Cons append_Nil le0 upt_conv_Cons upt_add_eq_append le_add_diff_inverse less_imp_le)
  have before: "fold_option (edge_step p cfgs timx) [0..<ci] (hw, calls) = Some (hw, calls)"
    using ok others ci by (intro edge_loop_idle) auto
  have after: "fold_option (edge_step p cfgs timx) [Suc ci..<CC_CHANNELS_PER_TIMER] (?hw', calls')
                 = Some (?hw', calls')"
    using ok others by (intro edge_loop_idle) auto
  show ?thesis
    by (simp only: split fold_option_append before option.case fold_option.simps step after)
qed

lemma timCCxHandler_no_update:
  "\<not> IT_Update hw \<Longrightarrow>
     timCCxHandler p cfgs timx hw
       = fold_option (edge_step p cfgs timx) [0..<CC_CHANNELS_PER_TIMER] (hw, [])"
  by (simp add: timCCxHandler_def)

text \<open>
  C1. Let the tables of the build be well formed, let \<open>(timers p ti, channels p ci)\<close> be a
  valid pair, and let an edge callback \<open>cb\<close> with reference \<open>refr\<close> be registered for it,
  followed by any registrations for other valid pairs. Then the registrations return,
  and when the interrupt handler services the pending capture-compare flag of channel
  \<open>ci\<close> on that timer it clears the flag and calls exactly \<open>cb\<close> with \<open>refr\<close> and the
  capture register of channel \<open>ci\<close>; with no other flag pending this is the only call of
  the whole handler. No other valid pair has the same slot index: the index function is
  injective on valid pairs.
\<close>

theorem timCCxHandler_invokes_registered_edge_callback:
  assumes ok: "tables_ok p"
    and ti: "ti < MAX_TIMERS p" and ci: "ci < CC_CHANNELS_PER_TIMER"
    and chan: "ucast chan = channels p ci"
    and len: "length timerConfig = MAX_TIMERS p * CC_CHANNELS_PER_TIMER"
    and later: "\<forall>(timx', chan', rest) \<in> set regs.
           \<exists>ti' ci'. ti' < MAX_TIMERS p \<and> ci' < CC_CHANNELS_PER_TIMER
             \<and> timx' = timers p ti' \<and> ucast chan' = channels p ci' \<and> (ti', ci') \<noteq> (ti, ci)"
    and pending: "IT_CC hw ci"
  shows "\<exists>cfg1 cfg2.
           configureTimerChannelCallbacks p (timers p ti) chan refr (Some cb) overflowCb timerConfig
             = Some cfg1
         \<and> configureSequence p regs cfg1 = Some cfg2
         \<and> edge_step p cfg2 (timers p ti) (hw, calls) ci
             = Some (hw\<lparr>IT_CC := (IT_CC hw)(ci := False)\<rparr>,
                     calls @ [Callback cb refr (CCR hw ci)])
         \<and> (\<not> IT_Update hw \<and> (\<forall>cj < CC_CHANNELS_PER_TIMER. cj \<noteq> ci \<longrightarrow> \<not> IT_CC hw cj)
              \<longrightarrow> timCCxHandler p cfg2 (timers p ti) hw
                    = Some (hw\<lparr>IT_CC := (IT_CC hw)(ci := False)\<rparr>,
                            [Callback cb refr (CCR hw ci)]))
         \<and> (\<forall>ti' ci'. ti' < MAX_TIMERS p \<and> ci' < CC_CHANNELS_PER_TIMER
               \<and> lookupTimerConfigIndex p (timers p ti') (channels p ci')
                   = lookupTimerConfigIndex p (timers p ti) (channels p ci)
              \<longrightarrow> ti' = ti \<and> ci' = ci)"
proof -
  let ?k = "ti + MAX_TIMERS p * ci"
  let ?cfg1 = "timerConfig[?k := (timerConfig ! ?k)\<lparr>channel := chan, edgeCallback := Some cb,
                   overflowCallback := overflowCb, reference := refr\<rparr>]"
  let ?hw' = "hw\<lparr>IT_CC := (IT_CC hw)(ci := False)\<rparr>"
  have k: "?k < length timerConfig"
    using slot_bound [of ti "MAX_TIMERS p" ci] ti ci len by (simp add: CC_CHANNELS_PER_TIMER_def)
  have c1: "configureTimerChannelCallbacks p (timers p ti) chan refr (Some cb) overflowCb timerConfig
              = Some ?cfg1"
    using ok ti ci chan by (rule configureTimerChannelCallbacks_valid)
  from configureSequence_other_slots [OF ok ti ci later, of ?cfg1]
  obtain cfg2 where c2: "configureSequence p regs ?cfg1 = Some cfg2"
    and slot: "cfg2 ! ?k = ?cfg1 ! ?k"
    by blast
  have entry: "edgeCallback (cfg2 ! ?k) = Some cb" "reference (cfg2 ! ?k) = refr"
    using slot k by simp_all
  have step: "edge_step p cfg2 (timers p ti) (hw, cs) ci
                = Some (?hw', cs @ [Callback cb refr (CCR hw ci)])" for cs
    using edge_step_pending [OF pending ci ok, of cfg2 "timers p ti" cs]
      findTimerConfig_valid [OF ok ti ci, of cfg2] entry
    by (simp add: invoke_edge_def)
  have whole: "timCCxHandler p cfg2 (timers p ti) hw = Some (?hw', [Callback cb refr (CCR hw ci)])"
    if "\<not> IT_Update hw" and "\<forall>cj < CC_CHANNELS_PER_TIMER. cj \<noteq> ci \<longrightarrow> \<not> IT_CC hw cj"
    using edge_loop_single [OF ok ci that(2) step [of "[]"]] that(1)
    by (simp add: timCCxHandler_no_update)
  have inj: "ti' = ti \<and> ci' = ci"
    if "ti' < MAX_TIMERS p" and "ci' < CC_CHANNELS_PER_TIMER"
      and "lookupTimerConfigIndex p (timers p ti') (channels p ci')
             = lookupTimerConfigIndex p (timers p ti) (channels p ci)" for ti' ci'
  proof -
    have "(of_nat (ti' + MAX_TIMERS p * ci') :: 8 word) = of_nat ?k"
      using that(3) lookupTimerConfigIndex_valid(1) [OF ok that(1,2)]
        lookupTimerConfigIndex_valid(1) [OF ok ti ci] by simp
    then have "unat (of_nat (ti' + MAX_TIMERS p * ci') :: 8 word) = unat (of_nat ?k :: 8 word)"
      by simp
    then have "ti' + MAX_TIMERS p * ci' = ?k"
      using lookupTimerConfigIndex_valid(2) [OF ok that(1,2)]
        lookupTimerConfigIndex_valid(2) [OF ok ti ci] by simp
    with that(1) ti show ?thesis by (intro slot_inj)
  qed
  from c1 c2 step [of calls] whole inj show ?thesis by blast
qed



lemma tables_ok_naze: "tables_ok (naze_tables w)"
  by (simp add: tables_ok_def naze_tables_def CC_CHANNELS_PER_TIMER_def upt_rec)

theorem timCCxHandler_invokes_registered_edge_callback_witness:
  "\<exists>cfg1 cfg2.
     configureTimerChannelCallbacks (naze_tables 0) 0x40000000 8 5 (Some 77) None
       (replicate 16 example_cfg) = Some cfg1
     \<and> configureSequence (naze_tables 0) [(0x40000000, 4, 6, Some 78, None)] cfg1 = Some cfg2
     \<and> timCCxHandler (naze_tables 0) cfg2 0x40000000 example_hw
         = Some (example_hw\<lparr>IT_CC := (IT_CC example_hw)(2 := False)\<rparr>, [Callback 77 5 1002])"
proof -
  let ?p = "naze_tables 0"
  have ti: "1 < MAX_TIMERS ?p" and ci: "2 < CC_CHANNELS_PER_TIMER"
    and chan: "ucast (8 :: 8 word) = channels ?p 2"
    and len: "length (replicate 16 example_cfg) = MAX_TIMERS ?p * CC_CHANNELS_PER_TIMER"
    and pending: "IT_CC example_hw 2"
    by (simp_all add: naze_tables_def CC_CHANNELS_PER_TIMER_def example_hw_def)
  have "\<exists>ti' ci'. ti' < MAX_TIMERS ?p \<and> ci' < CC_CHANNELS_PER_TIMER
             \<and> (0x40000000 :: 32 word) = timers ?p ti' \<and> ucast (4 :: 8 word) = channels ?p ci'
             \<and> (ti', ci') \<noteq> (1, 2)"
    by (rule exI [of _ 1], rule exI [of _ 1])
      (simp add: naze_tables_def CC_CHANNELS_PER_TIMER_def)
  then have later: "\<forall>(timx', chan', rest) \<in> set [(0x40000000 :: 32 word, 4 :: 8 word, 6 :: 8 word, Some (78 :: nat), None :: nat option)].
           \<exists>ti' ci'. ti' < MAX_TIMERS ?p \<and> ci' < CC_CHANNELS_PER_TIMER
             \<and> timx' = timers ?p ti' \<and> ucast chan' = channels ?p ci' \<and> (ti', ci') \<noteq> (1, 2)"
    by simp
  have idle: "\<not> IT_Update example_hw
                \<and> (\<forall>cj < CC_CHANNELS_PER_TIMER. cj \<noteq> 2 \<longrightarrow> \<not> IT_CC example_hw cj)"
    by (simp add: example_hw_def)
  have t2: "timers ?p 1 = 0x40000000" by (simp add: naze_tables_def)
  from timCCxHandler_invokes_registered_edge_callback
         [OF tables_ok_naze ti ci chan len later pending, of 5 77 None "[]"] idle
  obtain cfg1 cfg2 where
    "configureTimerChannelCallbacks ?p (timers ?p 1) 8 5 (Some 77) None (replicate 16 example_cfg)
       = Some cfg1"
    and "configureSequence ?p [(0x40000000, 4, 6, Some 78, None)] cfg1 = Some cfg2"
    and "timCCxHandler ?p cfg2 (timers ?p 1) example_hw
           = Some (example_hw\<lparr>IT_CC := (IT_CC example_hw)(2 := False)\<rparr>,
                   [Callback 77 5 (CCR example_hw 2)])"
    by blast
  moreover have "CCR example_hw 2 = 1002" by (simp add: example_hw_def)
  ultimately show ?thesis unfolding t2 by (intro exI [of _ cfg1] exI [of _ cfg2]) simp
qed

subsection \<open>What the unbounded lookup returns\<close>

lemma lookupTimerIndex_loop_result:
  "lookupTimerIndex_loop tbl timx i = Some y \<Longrightarrow> tbl (unat y) = timx"
  by (rule lookupTimerIndex_loop.raw_induct [where P = "\<lambda>tbl timx i y. tbl (unat y) = timx"])
    (auto split: if_splits)

lemma lookupTimerIndex_absent:
  assumes "\<forall>j < 256. timers p j \<noteq> timx"
  shows "lookupTimerIndex p timx = None"
proof (cases "lookupTimerIndex p timx")
  case None
  then show ?thesis .
next
  case (Some y)
  then have "timers p (unat y) = timx"
    unfolding lookupTimerIndex_def by (rule lookupTimerIndex_loop_result)
  moreover have "unat y < 256" using unsigned_less [of y, where 'a = nat] by simp
  ultimately show ?thesis using assms by blast
qed


subsection \<open>C9: registering for a timer that is not in the table\<close>

lemma configureTimerChannelCallbacks_guard:
  "lookupTimerConfigIndex p timx (ucast chan) = Some k
     \<Longrightarrow> MAX_TIMERS p * CC_CHANNELS_PER_TIMER \<le> unat k
     \<Longrightarrow> configureTimerChannelCallbacks p timx chan refr edgeCb overflowCb cfgs = Some cfgs"
  by (simp add: configureTimerChannelCallbacks_def)

text \<open>
  C9. The guard \<^verbatim>\<open>timerConfigIndex >= MAX_TIMERS * CC_CHANNELS_PER_TIMER\<close> does not make
  every call for a timer outside the table a no-op, because the lookup that computes the
  index scans past the end of \<^verbatim>\<open>timers[]\<close>. On the four-timer build, registering for
  \<open>0x40013400\<close> (TIM8, not in the table) when the word after the table holds that
  address yields index 4, which is the slot of (TIM1, channel 2): the call overwrites
  that slot. When no word the loop reads holds the address, the call does not return.
\<close>

theorem configureTimerChannelCallbacks_unlisted_timer:
  "lookupTimerConfigIndex (naze_tables 0x40013400) 0x40012C00 0x0004 = Some 4
   \<and> configureTimerChannelCallbacks (naze_tables 0x40013400) 0x40013400 0 7 (Some 99) None
         (replicate 16 example_cfg)
       = Some ((replicate 16 example_cfg)
                [4 := \<lparr>tim = 0, channel = 0, edgeCallback = Some 99,
                        overflowCallback = None, reference = 7\<rparr>])
   \<and> (replicate 16 example_cfg)
         [4 := \<lparr>tim = 0, channel = 0, edgeCallback = Some 99,
                 overflowCallback = None, reference = 7\<rparr>] \<noteq> replicate 16 example_cfg
   \<and> configureTimerChannelCallbacks (naze_tables 0) 0x40013400 0 7 (Some 99) None
         (replicate 16 example_cfg) = None"
proof -
  have a: "lookupTimerConfigIndex (naze_tables 0x40013400) 0x40012C00 0x0004 = Some 4"
    by (simp add: lookupTimerConfigIndex_def lookupTimerIndex_def lookupChannelIndex_def
          lookupTimerIndex_loop.simps lookupChannelIndex_loop.simps naze_tables_def)
  have b: "configureTimerChannelCallbacks (naze_tables 0x40013400) 0x40013400 0 7 (Some 99) None
         (replicate 16 example_cfg)
       = Some ((replicate 16 example_cfg)
                [4 := \<lparr>tim = 0, channel = 0, edgeCallback = Some 99,
                        overflowCallback = None, reference = 7\<rparr>])"
    by (simp add: configureTimerChannelCallbacks_def lookupTimerConfigIndex_def
          lookupTimerIndex_def lookupChannelIndex_def lookupTimerIndex_loop.simps
          lookupChannelIndex_loop.simps naze_tables_def CC_CHANNELS_PER_TIMER_def example_cfg_def)
  have "((replicate 16 example_cfg)
          [4 := \<lparr>tim = 0, channel = 0, edgeCallback = Some 99,
                  overflowCallback = None, reference = 7\<rparr>]) ! 4
          \<noteq> replicate 16 example_cfg ! 4"
    by (simp add: example_cfg_def)
  then have c: "(replicate 16 example_cfg)
         [4 := \<lparr>tim = 0, channel = 0, edgeCallback = Some 99,
                 overflowCallback = None, reference = 7\<rparr>] \<noteq> replicate 16 example_cfg"
    by metis
  have "lookupTimerIndex (naze_tables 0) 0x40013400 = None"
    by (rule lookupTimerIndex_absent) (simp add: naze_tables_def)
  then have d: "configureTimerChannelCallbacks (naze_tables 0) 0x40013400 0 7 (Some 99) None
         (replicate 16 example_cfg) = None"
    by (simp add: configureTimerChannelCallbacks_def lookupTimerConfigIndex_def)
  from a b c d show ?thesis by (intro conjI)
qed
subsection \<open>C10: what parsing the channel map writes\<close>

lemma strchr_Some: "strchr xs c = Some j \<Longrightarrow> j < length xs \<and> xs ! j = c"
  by (induction xs arbitrary: j) (auto split: if_splits)

lemma strchr_distinct: "distinct xs \<Longrightarrow> j < length xs \<Longrightarrow> strchr xs (xs ! j) = Some j"
proof (induction xs arbitrary: j)
  case Nil
  then show ?case by simp
next
  case (Cons x xs)
  show ?case
  proof (cases j)
    case 0
    then show ?thesis by simp
  next
    case (Suc k)
    with Cons.prems have "k < length xs" and "xs ! k \<noteq> x" by auto
    with Cons Suc show ?thesis by auto
  qed
qed

lemma strchr_letters_iff:
  "(strchr rcChannelLetters c = Some j) = (j < 8 \<and> rcChannelLetters ! j = c)"
proof
  assume "strchr rcChannelLetters c = Some j"
  from strchr_Some [OF this] show "j < 8 \<and> rcChannelLetters ! j = c"
    by (simp add: rcChannelLetters_def)
next
  assume a: "j < 8 \<and> rcChannelLetters ! j = c"
  have "distinct rcChannelLetters" by (simp add: rcChannelLetters_def)
  moreover have "j < length rcChannelLetters" using a by (simp add: rcChannelLetters_def)
  ultimately have "strchr rcChannelLetters (rcChannelLetters ! j) = Some j"
    by (rule strchr_distinct)
  with a show "strchr rcChannelLetters c = Some j" by simp
qed

lemma parseRcChannels_loop_length: "length (parseRcChannels_loop cs off m) = length m"
  by (induction cs arbitrary: off m) (auto split: option.splits)

lemma parseRcChannels_loop_frame:
  "\<forall>c \<in> set (c_string cs). strchr rcChannelLetters c \<noteq> Some j
     \<Longrightarrow> parseRcChannels_loop cs off m ! j = m ! j"
proof (induction cs arbitrary: off m)
  case Nil
  show ?case by simp
next
  case (Cons c cs)
  show ?case
  proof (cases "c = CHR 0x00")
    case True
    then show ?thesis by simp
  next
    case False
    with Cons.prems have here: "strchr rcChannelLetters c \<noteq> Some j"
      and rest: "\<forall>c \<in> set (c_string cs). strchr rcChannelLetters c \<noteq> Some j"
      by (simp_all add: c_string_def)
    from here have "(case strchr rcChannelLetters c of None \<Rightarrow> m | Some s \<Rightarrow> m[s := of_nat off]) ! j = m ! j"
      by (auto split: option.splits)
    with False Cons.IH [OF rest] show ?thesis by simp
  qed
qed

lemma parseRcChannels_loop_written:
  assumes "j < length m" and "i < length (c_string cs)"
    and "strchr rcChannelLetters (c_string cs ! i) = Some j"
    and "\<forall>i'. i < i' \<and> i' < length (c_string cs)
           \<longrightarrow> strchr rcChannelLetters (c_string cs ! i') \<noteq> Some j"
  shows "parseRcChannels_loop cs off m ! j = of_nat (off + i)"
  using assms
proof (induction cs arbitrary: off m i)
  case Nil
  then show ?case by (simp add: c_string_def)
next
  case (Cons c cs)
  from Cons.prems(2) have nz: "c \<noteq> CHR 0x00" by (auto simp: c_string_def split: if_splits)
  then have cs: "c_string (c # cs) = c # c_string cs" by (simp add: c_string_def)
  let ?m1 = "case strchr rcChannelLetters c of None \<Rightarrow> m | Some s \<Rightarrow> m[s := of_nat off]"
  have len1: "j < length ?m1" using Cons.prems(1) by (simp split: option.splits)
  have unfold: "parseRcChannels_loop (c # cs) off m = parseRcChannels_loop cs (Suc off) ?m1"
    using nz by simp
  show ?case
  proof (cases i)
    case 0
    with Cons.prems(3) cs have hit: "strchr rcChannelLetters c = Some j" by simp
    have "\<forall>c' \<in> set (c_string cs). strchr rcChannelLetters c' \<noteq> Some j"
    proof
      fix c' assume "c' \<in> set (c_string cs)"
      then obtain k where k: "k < length (c_string cs)" "c_string cs ! k = c'"
        by (auto simp: in_set_conv_nth)
      with Cons.prems(4) [rule_format, of "Suc k"] 0 cs
      show "strchr rcChannelLetters c' \<noteq> Some j" by simp
    qed
    then have "parseRcChannels_loop cs (Suc off) ?m1 ! j = ?m1 ! j"
      by (rule parseRcChannels_loop_frame)
    with unfold hit Cons.prems(1) 0 show ?thesis by simp
  next
    case (Suc i0)
    with Cons.prems cs have p: "i0 < length (c_string cs)"
      "strchr rcChannelLetters (c_string cs ! i0) = Some j" by simp_all
    have q: "\<forall>i'. i0 < i' \<and> i' < length (c_string cs)
           \<longrightarrow> strchr rcChannelLetters (c_string cs ! i') \<noteq> Some j"
    proof (intro allI impI)
      fix i' assume "i0 < i' \<and> i' < length (c_string cs)"
      with Cons.prems(4) [rule_format, of "Suc i'"] Suc cs
      show "strchr rcChannelLetters (c_string cs ! i') \<noteq> Some j" by simp
    qed
    from Cons.IH [OF len1 p q, of "Suc off"] unfold Suc show ?thesis by simp
  qed
qed

text \<open>
  C10 (amended). For every input string and configuration: parsing keeps the length of
  the remap table and the other fields; an entry whose index is 8 or more, or whose
  letter of \<open>AERT1234\<close> does not occur in the input, is unchanged (so characters that
  are not among the letters cause no write); and the entry of a letter that occurs holds
  the offset of its last occurrence in the input, reduced modulo 256 by the 8-bit entry.
\<close>

theorem parseRcChannels_effect:
  "length (rcmap (parseRcChannels input cfg)) = length (rcmap cfg)
   \<and> midrc (parseRcChannels input cfg) = midrc cfg
   \<and> rssi_channel (parseRcChannels input cfg) = rssi_channel cfg
   \<and> (\<forall>j. 8 \<le> j \<or> rcChannelLetters ! j \<notin> set (c_string input)
          \<longrightarrow> rcmap (parseRcChannels input cfg) ! j = rcmap cfg ! j)
   \<and> (\<forall>j i. j < 8 \<and> j < length (rcmap cfg) \<and> i < length (c_string input)
            \<and> c_string input ! i = rcChannelLetters ! j
            \<and> (\<forall>i'. i < i' \<and> i' < length (c_string input)
                   \<longrightarrow> c_string input ! i' \<noteq> rcChannelLetters ! j)
          \<longrightarrow> rcmap (parseRcChannels input cfg) ! j = of_nat i)"
proof (intro conjI allI impI)
  show "length (rcmap (parseRcChannels input cfg)) = length (rcmap cfg)"
    by (simp add: parseRcChannels_def parseRcChannels_loop_length)
  show "midrc (parseRcChannels input cfg) = midrc cfg"
    and "rssi_channel (parseRcChannels input cfg) = rssi_channel cfg"
    by (simp_all add: parseRcChannels_def)
next
  fix j
  assume "8 \<le> j \<or> rcChannelLetters ! j \<notin> set (c_string input)"
  then have "\<forall>c \<in> set (c_string input). strchr rcChannelLetters c \<noteq> Some j"
    by (auto simp: strchr_letters_iff)
  then show "rcmap (parseRcChannels input cfg) ! j = rcmap cfg ! j"
    by (simp add: parseRcChannels_def parseRcChannels_loop_frame)
next
  fix j i
  assume a: "j < 8 \<and> j < length (rcmap cfg) \<and> i < length (c_string input)
            \<and> c_string input ! i = rcChannelLetters ! j
            \<and> (\<forall>i'. i < i' \<and> i' < length (c_string input)
                   \<longrightarrow> c_string input ! i' \<noteq> rcChannelLetters ! j)"
  then have "parseRcChannels_loop input 0 (rcmap cfg) ! j = of_nat (0 + i)"
    by (intro parseRcChannels_loop_written) (auto simp: strchr_letters_iff)
  then show "rcmap (parseRcChannels input cfg) ! j = of_nat i"
    by (simp add: parseRcChannels_def)
qed


theorem parseRcChannels_effect_witness:
  "rcmap (parseRcChannels ''AETR1234'' example_rxConfig) ! 2 = 3
   \<and> rcmap (parseRcChannels ''xyzA'' example_rxConfig) ! 2 = 0xFF"
proof -
  have body: "c_string ''AETR1234'' = ''AETR1234''" by (simp add: c_string_def)
  have last: "\<forall>i'. 3 < i' \<and> i' < length (c_string ''AETR1234'')
                \<longrightarrow> c_string ''AETR1234'' ! i' \<noteq> rcChannelLetters ! 2"
  proof (intro allI impI)
    fix i' :: nat assume "3 < i' \<and> i' < length (c_string ''AETR1234'')"
    then have "i' = 4 \<or> i' = 5 \<or> i' = 6 \<or> i' = 7" unfolding body by auto
    then show "c_string ''AETR1234'' ! i' \<noteq> rcChannelLetters ! 2"
      unfolding body by (auto simp: rcChannelLetters_def)
  qed
  have "(2::nat) < 8 \<and> 2 < length (rcmap example_rxConfig) \<and> 3 < length (c_string ''AETR1234'')
          \<and> c_string ''AETR1234'' ! 3 = rcChannelLetters ! 2"
    by (simp add: body rcChannelLetters_def example_rxConfig_def)
  with last parseRcChannels_effect [of "''AETR1234''" example_rxConfig]
  have a: "rcmap (parseRcChannels ''AETR1234'' example_rxConfig) ! 2 = of_nat 3" by blast
  have "rcChannelLetters ! 2 \<notin> set (c_string ''xyzA'')"
    by (simp add: c_string_def rcChannelLetters_def)
  with parseRcChannels_effect [of "''xyzA''" example_rxConfig]
  have "rcmap (parseRcChannels ''xyzA'' example_rxConfig) ! 2 = rcmap example_rxConfig ! 2"
    by blast
  then have b: "rcmap (parseRcChannels ''xyzA'' example_rxConfig) ! 2 = 0xFF"
    by (simp add: example_rxConfig_def)
  from a b show ?thesis by simp
qed

text \<open>
  The stored value is not always the offset itself: an \<open>A\<close> at offset 256 stores 0.
\<close>

theorem parseRcChannels_offset_counterexample:
  "\<not> (\<forall>input cfg j i.
         j < 8 \<and> j < length (rcmap cfg) \<and> i < length (c_string input)
         \<and> c_string input ! i = rcChannelLetters ! j
         \<and> (\<forall>i'. i < i' \<and> i' < length (c_string input)
                \<longrightarrow> c_string input ! i' \<noteq> rcChannelLetters ! j)
         \<longrightarrow> unat (rcmap (parseRcChannels input cfg) ! j) = i)"
proof
  let ?input = "replicate 256 (CHR ''x'') @ ''A''"
  assume claim: "\<forall>input cfg j i.
         j < 8 \<and> j < length (rcmap cfg) \<and> i < length (c_string input)
         \<and> c_string input ! i = rcChannelLetters ! j
         \<and> (\<forall>i'. i < i' \<and> i' < length (c_string input)
                \<longrightarrow> c_string input ! i' \<noteq> rcChannelLetters ! j)
         \<longrightarrow> unat (rcmap (parseRcChannels input cfg) ! j) = i"
  have body: "c_string ?input = ?input"
    by (simp add: c_string_def takeWhile_append2)
  have len: "length ?input = 257" by simp
  have at: "?input ! 256 = CHR ''A''" by (simp add: nth_append)
  have none: "\<forall>i'. 256 < i' \<and> i' < length (c_string ?input)
                \<longrightarrow> c_string ?input ! i' \<noteq> rcChannelLetters ! 0"
    unfolding body len by arith
  have "(0::nat) < 8 \<and> 0 < length (rcmap example_rxConfig) \<and> 256 < length (c_string ?input)
         \<and> c_string ?input ! 256 = rcChannelLetters ! 0"
    unfolding body len at by (simp add: example_rxConfig_def rcChannelLetters_def)
  with none claim have "unat (rcmap (parseRcChannels ?input example_rxConfig) ! 0) = 256"
    by blast
  moreover have "unat (rcmap (parseRcChannels ?input example_rxConfig) ! 0) < 256"
    using unsigned_less [of "rcmap (parseRcChannels ?input example_rxConfig) ! 0", where 'a = nat]
    by simp
  ultimately show False by simp
qed


end
